theory Spec2Isabelle
  imports Main
begin

text \<open>
  A reminder service reads the rows of a sheet, finds the records that are due and not yet
  marked as sent, sends a reminder for each over a chat session and marks the row. The theory
  embeds the date parser \<open>parseDDMMYY\<close> and the routes /preview and /send_pending of
  \<open>index.js\<close>. The second source file has the same two routes and differs in the parser,
  which is embedded beside the first.
\<close>

section \<open>Strings\<close>

text \<open>
  A JavaScript string is a sequence of UTF-16 code units. The model uses \<^typ>\<open>string\<close> and
  reads each \<^typ>\<open>char\<close> as one code unit in the range 0..255 (Latin-1), which holds every
  letter the program compares against: the sent marker is \<open>s\<close> followed by U+00ED.
  Text with code units above 255 is outside the model.
\<close>

definition is_ws :: "char \<Rightarrow> bool" where
  \<comment> \<open>white space and line terminators of \<open>String.prototype.trim\<close> and \<open>parseInt\<close>, below 256\<close>
  "is_ws c = (of_char c \<in> {9, 10, 11, 12, 13, 32, 160 :: nat})"

definition trim :: "string \<Rightarrow> string" where
  "trim s = rev (dropWhile is_ws (rev (dropWhile is_ws s)))"

definition lower_char :: "char \<Rightarrow> char" where
  \<comment> \<open>A..Z, and U+00C0..U+00DE without the multiplication sign U+00D7\<close>
  "lower_char c =
     (let n = (of_char c :: nat)
      in if (65 \<le> n \<and> n \<le> 90) \<or> (192 \<le> n \<and> n \<le> 222 \<and> n \<noteq> 215)
         then char_of (n + 32) else c)"

definition toLowerCase :: "string \<Rightarrow> string" where
  "toLowerCase s = map lower_char s"

fun split :: "char \<Rightarrow> string \<Rightarrow> string list" where
  \<comment> \<open>\<open>s.split(c)\<close> for a one-character separator: never the empty list\<close>
  "split c [] = [[]]"
| "split c (x # xs) =
     (if x = c then [] # split c xs
      else (case split c xs of [] \<Rightarrow> [[x]] | p # ps \<Rightarrow> (x # p) # ps))"

fun starts_with :: "string \<Rightarrow> string \<Rightarrow> bool" where
  "starts_with [] s = True"
| "starts_with (p # ps) [] = False"
| "starts_with (p # ps) (x # xs) = (p = x \<and> starts_with ps xs)"

fun includes_text :: "string \<Rightarrow> string \<Rightarrow> bool" where
  \<comment> \<open>\<open>s.includes(pat)\<close>, the text first as in the source\<close>
  "includes_text [] pat = (pat = [])"
| "includes_text (x # xs) pat = (starts_with pat (x # xs) \<or> includes_text xs pat)"

definition is_digit :: "char \<Rightarrow> bool" where
  "is_digit c = (48 \<le> (of_char c :: nat) \<and> (of_char c :: nat) \<le> 57)"

definition digits_value :: "string \<Rightarrow> nat" where
  "digits_value ds = foldl (\<lambda>a c. 10 * a + (of_char c - 48)) 0 ds"

definition parseInt :: "string \<Rightarrow> int option" where
  \<comment> \<open>\<open>parseInt(s, 10)\<close>; \<open>None\<close> is NaN. Leading white space, one sign, then the longest
      run of decimal digits; whatever follows is dropped.\<close>
  "parseInt s =
     (let t = dropWhile is_ws s;
          neg = (t \<noteq> [] \<and> hd t = CHR ''-'');
          u = (if t \<noteq> [] \<and> (hd t = CHR ''-'' \<or> hd t = CHR ''+'') then tl t else t);
          ds = takeWhile is_digit u
      in if ds = [] then None
         else Some (if neg then - int (digits_value ds) else int (digits_value ds)))"

fun dec :: "nat \<Rightarrow> string" where
  "dec n = (if n < 10 then [char_of (48 + n)] else dec (n div 10) @ [char_of (48 + n mod 10)])"

declare dec.simps [simp del]

definition number_toString :: "int option \<Rightarrow> string" where
  \<comment> \<open>a Number inside a template literal; exact for integers below \<open>2^53\<close>\<close>
  "number_toString x =
     (case x of None \<Rightarrow> ''NaN''
      | Some n \<Rightarrow> if n < 0 then CHR ''-'' # dec (nat (- n)) else dec (nat n))"

definition padStart :: "nat \<Rightarrow> char \<Rightarrow> string \<Rightarrow> string" where
  "padStart n c s = replicate (n - length s) c @ s"

section \<open>Dates\<close>

text \<open>
  A value of the date library is a local calendar day with the milliseconds elapsed in it.
  Time zones and daylight saving are not modelled.
\<close>

record calendar =
  c_year :: int
  c_month :: nat
  c_day :: nat
  c_ms :: nat

definition leap :: "int \<Rightarrow> bool" where
  "leap y = (y mod 4 = 0 \<and> (y mod 100 \<noteq> 0 \<or> y mod 400 = 0))"

definition days_in_month :: "int \<Rightarrow> nat \<Rightarrow> nat" where
  "days_in_month y m =
     (if m = 2 then (if leap y then 29 else 28)
      else if m = 4 \<or> m = 6 \<or> m = 9 \<or> m = 11 then 30 else 31)"

definition valid_calendar :: "calendar \<Rightarrow> bool" where
  "valid_calendar c =
     (1 \<le> c_month c \<and> c_month c \<le> 12 \<and> 1 \<le> c_day c
      \<and> c_day c \<le> days_in_month (c_year c) (c_month c) \<and> c_ms c < 86400000)"

definition valueOf_less :: "calendar \<Rightarrow> calendar \<Rightarrow> bool" where
  \<comment> \<open>\<open>a < b\<close> on two library values: their instants compared\<close>
  "valueOf_less a b =
     (c_year a < c_year b \<or> (c_year a = c_year b \<and>
       (c_month a < c_month b \<or> (c_month a = c_month b \<and>
         (c_day a < c_day b \<or> (c_day a = c_day b \<and> c_ms a < c_ms b))))))"

definition startOf_day :: "calendar \<Rightarrow> calendar" where
  "startOf_day c = c\<lparr>c_ms := 0\<rparr>"

definition endOf_day :: "calendar \<Rightarrow> calendar" where
  "endOf_day c = c\<lparr>c_ms := 86399999\<rparr>"

definition isSame_day :: "calendar \<Rightarrow> calendar \<Rightarrow> bool" where
  \<comment> \<open>\<open>this.isSame(that, "day")\<close>: \<open>startOf <= that && that <= endOf\<close>\<close>
  "isSame_day this that =
     (\<not> valueOf_less that (startOf_day this) \<and> \<not> valueOf_less (endOf_day this) that)"

definition isBefore_day :: "calendar \<Rightarrow> calendar \<Rightarrow> bool" where
  \<comment> \<open>\<open>this.isBefore(that, "day")\<close>: \<open>endOf < that\<close>\<close>
  "isBefore_day this that = valueOf_less (endOf_day this) that"

definition add_1_day :: "calendar \<Rightarrow> calendar" where
  \<comment> \<open>\<open>c.add(1, "day")\<close>: the next calendar day, same time of day\<close>
  "add_1_day c =
     (if c_day c < days_in_month (c_year c) (c_month c) then c\<lparr>c_day := c_day c + 1\<rparr>
      else if c_month c < 12 then c\<lparr>c_month := c_month c + 1, c_day := 1\<rparr>
      else c\<lparr>c_year := c_year c + 1, c_month := 1, c_day := 1\<rparr>)"

definition format_DD_MM_YYYY :: "calendar \<Rightarrow> string" where
  "format_DD_MM_YYYY c =
     padStart 2 CHR ''0'' (dec (c_day c)) @ ''/'' @ padStart 2 CHR ''0'' (dec (c_month c))
     @ ''/'' @ padStart 4 CHR ''0'' (number_toString (Some (c_year c)))"

definition format_YYYY_MM_DD :: "calendar \<Rightarrow> string" where
  "format_YYYY_MM_DD c =
     padStart 4 CHR ''0'' (number_toString (Some (c_year c))) @ ''-''
     @ padStart 2 CHR ''0'' (dec (c_month c)) @ ''-'' @ padStart 2 CHR ''0'' (dec (c_day c))"

definition cond :: "string \<Rightarrow> calendar \<Rightarrow> calendar \<Rightarrow> bool" where
  \<comment> \<open>the due test of both routes: \<open>SEND_MODE === "today" ? isSame : isBefore\<close>\<close>
  "cond mode fecha today =
     (if mode = ''today'' then isSame_day fecha today
      else isBefore_day fecha (add_1_day today))"

section \<open>parseDDMMYY\<close>

text \<open>
  The last step of \<open>parseDDMMYY\<close> hands a text of the form year-month-day to the date
  library, with the pattern \<open>YYYY-M-D\<close> and the strict flag, and keeps the result if the
  library calls it valid. The library's parser is the parameter \<open>dayjs\<close> of the functions
  below, \<open>None\<close> standing for an invalid date; the library itself follows in the next
  section.
\<close>

type_synonym date_library = "string \<Rightarrow> calendar option"

definition year_of :: "string \<Rightarrow> int option" where
  \<comment> \<open>\<open>y.length === 2 ? 2000 + parseInt(y, 10) : parseInt(y, 10)\<close>\<close>
  "year_of y = (if length y = 2 then map_option (\<lambda>n. 2000 + n) (parseInt y) else parseInt y)"

definition ymd_text :: "string \<Rightarrow> string \<Rightarrow> string \<Rightarrow> string" where
  \<comment> \<open>the template literal \<open>${year}-${m}-${d}\<close>\<close>
  "ymd_text d m y = number_toString (year_of y) @ ''-'' @ m @ ''-'' @ d"

definition parseDDMMYY :: "date_library \<Rightarrow> string option \<Rightarrow> calendar option" where
  \<comment> \<open>index.js; the argument is a cell, \<open>None\<close> for \<open>undefined\<close>\<close>
  "parseDDMMYY dayjs s =
     (case s of None \<Rightarrow> None
      | Some s' \<Rightarrow>
          if s' = [] then None
          else let parts = split CHR ''/'' (trim s')
               in if length parts < 3 then None
                  else dayjs (ymd_text (parts ! 0) (parts ! 1) (parts ! 2)))"

definition parseDDMMYY_part_000 :: "date_library \<Rightarrow> string option \<Rightarrow> calendar option" where
  \<comment> \<open>the second source file: \<open>if (!d || !m || !y) return null\<close> after destructuring\<close>
  "parseDDMMYY_part_000 dayjs s =
     (case s of None \<Rightarrow> None
      | Some s' \<Rightarrow>
          if s' = [] then None
          else let parts = split CHR ''/'' (trim s')
               in if length parts < 3 \<or> parts ! 0 = [] \<or> parts ! 1 = [] \<or> parts ! 2 = []
                  then None
                  else dayjs (ymd_text (parts ! 0) (parts ! 1) (parts ! 2)))"

definition all_digits :: "string \<Rightarrow> bool" where
  "all_digits s = (s \<noteq> [] \<and> list_all is_digit s)"

section \<open>The date library\<close>

text \<open>
  Both source files import the date library and its Spanish locale and extend it with nothing.
  The pattern and the strict flag that \<open>parseDDMMYY\<close> passes are read by an extension of the
  library only; without it the library matches the text against its own expression
  \<open>REGEX_PARSE\<close> and, on a match, builds the date with the \<open>Date\<close> constructor, which
  carries a month or a day that is out of range over into the following months. A text that
  does not match goes to the JavaScript engine's own date parser. The library is not part of
  the repository; the definitions below follow the parser of its version 1.11. What the engine
  makes of a text is left to the implementation by the language standard, so that parser is
  a parameter.
\<close>

datatype item = Item "char \<Rightarrow> bool" nat nat
  \<comment> \<open>characters of one class, at least and at most so many of them\<close>

fun first_some :: "'a option list \<Rightarrow> 'a option" where
  "first_some [] = None"
| "first_some (None # xs) = first_some xs"
| "first_some (Some x # xs) = Some x"

fun match_items :: "item list \<Rightarrow> string \<Rightarrow> string list option" where
  \<comment> \<open>the whole text against a sequence of items, each taking as many characters as it can
      and giving them back one by one while the rest does not match; the result is the text
      each item took\<close>
  "match_items [] s = (if s = [] then Some [] else None)"
| "match_items (Item cls lo hi # its) s =
     first_some
       (map (\<lambda>k. map_option ((#) (take k s)) (match_items its (drop k s)))
          (rev [lo..<Suc (min hi (length (takeWhile cls s)))]))"

definition is_dash :: "char \<Rightarrow> bool" where
  "is_dash c = (c = CHR ''-'' \<or> c = CHR ''/'')"

definition is_T_or_space :: "char \<Rightarrow> bool" where
  "is_T_or_space c = (c = CHR ''T'' \<or> c = CHR ''t'' \<or> is_ws c)"

definition is_colon :: "char \<Rightarrow> bool" where
  "is_colon c = (c = CHR '':'')"

definition is_dot_or_colon :: "char \<Rightarrow> bool" where
  "is_dot_or_colon c = (c = CHR ''.'' \<or> c = CHR '':'')"

definition REGEX_PARSE :: "nat \<Rightarrow> item list" where
  \<comment> \<open>\<open>/^(\d{4})[-/]?(\d{1,2})?[-/]?(\d{0,2})[Tt\s]*(\d{1,2})?:?(\d{1,2})?:?(\d{1,2})?[.:]?(\d+)?$/\<close>;
      \<open>n\<close> bounds the two items that have no bound, and a group that is left out takes the
      empty text\<close>
  "REGEX_PARSE n =
     [Item is_digit 4 4, Item is_dash 0 1, Item is_digit 0 2, Item is_dash 0 1,
      Item is_digit 0 2, Item is_T_or_space 0 n, Item is_digit 0 2, Item is_colon 0 1,
      Item is_digit 0 2, Item is_colon 0 1, Item is_digit 0 2, Item is_dot_or_colon 0 1,
      Item is_digit 0 n]"

definition sub_1_day :: "calendar \<Rightarrow> calendar" where
  \<comment> \<open>the calendar day before, same time of day\<close>
  "sub_1_day c =
     (if 1 < c_day c then c\<lparr>c_day := c_day c - 1\<rparr>
      else if 1 < c_month c
      then c\<lparr>c_month := c_month c - 1, c_day := days_in_month (c_year c) (c_month c - 1)\<rparr>
      else c\<lparr>c_year := c_year c - 1, c_month := 12, c_day := 31\<rparr>)"

definition make_date :: "int \<Rightarrow> int \<Rightarrow> nat \<Rightarrow> nat \<Rightarrow> calendar" where
  \<comment> \<open>\<open>new Date(y, m, d, ...)\<close> in local time, for a year, a month counted from 0, a day of
      the month and the milliseconds of the time given: years 0 to 99 stand for 1900 to 1999,
      months beyond the year and days beyond the month carry over\<close>
  "make_date y m d t =
     (let y' = (if 0 \<le> y \<and> y \<le> 99 then 1900 + y else y);
          months = y' * 12 + m;
          first = \<lparr>c_year = months div 12, c_month = nat (months mod 12) + 1, c_day = 1,
                   c_ms = t mod 86400000\<rparr>;
          extra = t div 86400000
      in if d = 0 \<and> extra = 0 then sub_1_day first
         else (add_1_day ^^ (d + extra - 1)) first)"

definition or_digits :: "string \<Rightarrow> nat \<Rightarrow> nat" where
  \<comment> \<open>\<open>d[i] || n\<close>, as a number\<close>
  "or_digits s n = (if s = [] then n else digits_value s)"

definition dayjs_parse :: "date_library \<Rightarrow> date_library" where
  \<comment> \<open>\<open>dayjs(text, "YYYY-M-D", true)\<close> followed by \<open>isValid()\<close>, for the library without
      extensions: its \<open>parseDate\<close>, with \<open>Date_parse\<close> for the engine's \<open>new Date(text)\<close>\<close>
  "dayjs_parse Date_parse s =
     (if s \<noteq> [] \<and> (last s = CHR ''Z'' \<or> last s = CHR ''z'') then Date_parse s
      else case match_items (REGEX_PARSE (length s)) s of
             None \<Rightarrow> Date_parse s
           | Some d \<Rightarrow>
               Some (make_date (int (digits_value (d ! 0)))
                       (if d ! 2 = [] then 0 else int (digits_value (d ! 2)) - 1)
                       (or_digits (d ! 4) 1)
                       (((or_digits (d ! 6) 0 * 60 + or_digits (d ! 8) 0) * 60
                          + or_digits (d ! 10) 0) * 1000
                        + or_digits (take 3 (d ! 12)) 0)))"

definition dayjs_example :: date_library where
  \<comment> \<open>the library of the scenarios below; none of their texts reaches the engine's parser,
      which is set to reject\<close>
  "dayjs_example = dayjs_parse (\<lambda>s. None)"

section \<open>Configuration and the two gateways\<close>

datatype message = Recordatorio string string string
  \<comment> \<open>the reminder text, given by the three values its template interpolates:
      Nombre, Cargo and the date as DD/MM/YYYY\<close>

datatype effect =
    SendMessage nat string message bool
  | UpdateCell nat nat string bool
  \<comment> \<open>One call that reached a gateway, and whether it resolved. \<open>SendMessage r jid text ok\<close>
      is \<open>sock.sendMessage(jid, {text})\<close> made while sheet row \<open>r\<close> is processed;
      \<open>UpdateCell r col value ok\<close> is the write of one cell of row \<open>r\<close>.\<close>

datatype error =
    NoDestinations   \<comment> \<open>400 "Configura DEST_NUMBERS"\<close>
  | MissingHeaders   \<comment> \<open>400 "Encabezados esperados: Nombre, Cargo, Fecha, Enviado"\<close>
  | ChannelNotReady  \<comment> \<open>thrown by \<open>sendText\<close>: "WhatsApp no esta listo ..."\<close>
  | SendError        \<comment> \<open>\<open>sock.sendMessage\<close> rejected\<close>
  | WriteError       \<comment> \<open>the cell update rejected\<close>
  | ReadError        \<comment> \<open>reading the sheet rejected, or no credentials\<close>

text \<open>
  Everything a request depends on. The three gateway fields answer a call from the calls made
  so far in the request, so a gateway may change its mind during a pass.
\<close>

record world =
  env_DEST_NUMBERS :: "string option"
  env_SEND_MODE :: "string option"
  sheet_values :: "string list list option"
    \<comment> \<open>\<open>res.data.values || []\<close>; \<open>None\<close> when the read throws\<close>
  now :: calendar
  dayjs :: date_library
  connReady :: "effect list \<Rightarrow> bool"
    \<comment> \<open>\<open>sock && connReady\<close> at that moment\<close>
  sendMessage_ok :: "effect list \<Rightarrow> string \<Rightarrow> message \<Rightarrow> bool"
  update_ok :: "effect list \<Rightarrow> nat \<Rightarrow> nat \<Rightarrow> string \<Rightarrow> bool"

definition or_default :: "string option \<Rightarrow> string \<Rightarrow> string" where
  \<comment> \<open>\<open>x || dflt\<close> on a string or \<open>undefined\<close>\<close>
  "or_default x dflt = (case x of None \<Rightarrow> dflt | Some s \<Rightarrow> if s = [] then dflt else s)"

definition DEST_NUMBERS :: "world \<Rightarrow> string list" where
  "DEST_NUMBERS w =
     filter (\<lambda>s. s \<noteq> []) (map trim (split CHR '','' (or_default (env_DEST_NUMBERS w) [])))"

definition SEND_MODE :: "world \<Rightarrow> string" where
  "SEND_MODE w = toLowerCase (or_default (env_SEND_MODE w) ''today'')"

definition si :: string where
  \<comment> \<open>the sent marker: \<open>s\<close>, then i with acute accent (U+00ED)\<close>
  "si = [CHR ''s'', CHR 0xED]"

definition readRows :: "string list list \<Rightarrow> string list \<times> string list list" where
  "readRows values = (case values of [] \<Rightarrow> ([], []) | h # rest \<Rightarrow> (h, rest))"

definition jid_of :: "string \<Rightarrow> string" where
  \<comment> \<open>the local \<open>jid\<close> of \<open>sendText\<close>\<close>
  "jid_of toNumber =
     (if includes_text toNumber ''@s.whatsapp.net'' then toNumber
      else toNumber @ ''@s.whatsapp.net'')"

definition sendText ::
  "world \<Rightarrow> nat \<Rightarrow> string \<Rightarrow> message \<Rightarrow> effect list \<Rightarrow> error option \<times> effect list" where
  \<comment> \<open>the calls made so far go in, the calls made so far come out, with the error thrown if
      any; \<open>r\<close> only labels the call\<close>
  "sendText w r toNumber text tr =
     (if \<not> connReady w tr then (Some ChannelNotReady, tr)
      else if sendMessage_ok w tr (jid_of toNumber) text
           then (None, tr @ [SendMessage r (jid_of toNumber) text True])
           else (Some SendError, tr @ [SendMessage r (jid_of toNumber) text False]))"

definition updateCell ::
  "world \<Rightarrow> nat \<Rightarrow> nat \<Rightarrow> string \<Rightarrow> effect list \<Rightarrow> error option \<times> effect list" where
  "updateCell w rowIndex1 colIndex1 v tr =
     (if update_ok w tr rowIndex1 colIndex1 v
      then (None, tr @ [UpdateCell rowIndex1 colIndex1 v True])
      else (Some WriteError, tr @ [UpdateCell rowIndex1 colIndex1 v False]))"

section \<open>Header map and rows\<close>

definition normalize_header :: "string \<Rightarrow> string" where
  "normalize_header h = toLowerCase (trim h)"

definition hmap :: "string list \<Rightarrow> string \<Rightarrow> nat option" where
  \<comment> \<open>\<open>Object.fromEntries\<close>: of two equal keys the later one stays\<close>
  "hmap headers = map_of (rev (zip (map normalize_header headers) [0..<length headers]))"

record columns =
  iNombre :: nat
  iCargo :: nat
  iFecha :: nat
  iEnviado :: nat

definition coalesce :: "'a option \<Rightarrow> 'a option \<Rightarrow> 'a option" where
  \<comment> \<open>\<open>a ?? b\<close>\<close>
  "coalesce a b = (case a of None \<Rightarrow> b | Some x \<Rightarrow> Some x)"

definition resolve :: "string list \<Rightarrow> columns option" where
  \<comment> \<open>the four lookups and the \<open>some(i => i === undefined)\<close> test\<close>
  "resolve headers =
     (let h = hmap headers;
          fecha = coalesce (h ''fecha'')
                    (coalesce (h ''fecha (dd/mm/yy)'') (h ''fecha(dd/mm/yy)''))
      in case (h ''nombre'', h ''cargo'', fecha, h ''enviado'') of
           (Some a, Some b, Some c, Some d) \<Rightarrow>
             Some \<lparr>iNombre = a, iCargo = b, iFecha = c, iEnviado = d\<rparr>
         | _ \<Rightarrow> None)"

definition cell :: "string list \<Rightarrow> nat \<Rightarrow> string option" where
  \<comment> \<open>\<open>row[i]\<close>: \<open>undefined\<close> past the end of a short row\<close>
  "cell row i = (if i < length row then Some (row ! i) else None)"

definition nombre_of :: "columns \<Rightarrow> string list \<Rightarrow> string" where
  "nombre_of cols row = trim (or_default (cell row (iNombre cols)) [])"

definition cargo_of :: "columns \<Rightarrow> string list \<Rightarrow> string" where
  "cargo_of cols row = trim (or_default (cell row (iCargo cols)) [])"

definition fecha_of :: "world \<Rightarrow> columns \<Rightarrow> string list \<Rightarrow> calendar option" where
  "fecha_of w cols row = parseDDMMYY (dayjs w) (cell row (iFecha cols))"

definition enviado_of :: "columns \<Rightarrow> string list \<Rightarrow> string" where
  "enviado_of cols row = toLowerCase (trim (or_default (cell row (iEnviado cols)) []))"

section \<open>The two routes\<close>

record pending_entry =
  p_row :: nat
  p_Nombre :: string
  p_Cargo :: string
  p_Fecha :: string

record sent_entry =
  s_row :: nat
  s_Nombre :: string

datatype response =
    Status400 error
  | Status500 error
  | ToSendEmpty
      \<comment> \<open>\<open>{ to_send: [] }\<close>\<close>
  | PreviewJson string string "pending_entry list"
      \<comment> \<open>\<open>{ today, mode, to_send }\<close>\<close>
  | SentJson string string "sent_entry list" nat
      \<comment> \<open>\<open>{ today, mode, sent, count }\<close>\<close>

fun pending_rows :: "world \<Rightarrow> columns \<Rightarrow> nat \<Rightarrow> string list list \<Rightarrow> pending_entry list" where
  \<comment> \<open>the \<open>forEach\<close> of /preview, from index \<open>idx\<close> on\<close>
  "pending_rows w cols idx [] = []"
| "pending_rows w cols idx (row # rows) =
     (case fecha_of w cols row of
        None \<Rightarrow> pending_rows w cols (idx + 1) rows
      | Some fecha \<Rightarrow>
          if enviado_of cols row = si then pending_rows w cols (idx + 1) rows
          else if cond (SEND_MODE w) fecha (now w)
          then \<lparr>p_row = idx + 2, p_Nombre = nombre_of cols row, p_Cargo = cargo_of cols row,
                 p_Fecha = format_DD_MM_YYYY fecha\<rparr> # pending_rows w cols (idx + 1) rows
          else pending_rows w cols (idx + 1) rows)"

definition preview :: "world \<Rightarrow> response" where
  "preview w =
     (case sheet_values w of
        None \<Rightarrow> Status500 ReadError
      | Some values \<Rightarrow>
          (case readRows values of
             (headers, rows) \<Rightarrow>
               if headers = [] then ToSendEmpty
               else (case resolve headers of
                       None \<Rightarrow> Status400 MissingHeaders
                     | Some cols \<Rightarrow>
                         PreviewJson (format_YYYY_MM_DD (now w)) (SEND_MODE w)
                           (pending_rows w cols 0 rows))))"

definition msg :: "string \<Rightarrow> string \<Rightarrow> calendar \<Rightarrow> message" where
  \<comment> \<open>the template literal \<open>msg\<close> of /send_pending\<close>
  "msg nombre cargo fecha = Recordatorio nombre cargo (format_DD_MM_YYYY fecha)"

fun send_dests ::
  "world \<Rightarrow> nat \<Rightarrow> message \<Rightarrow> string list \<Rightarrow> effect list \<Rightarrow> error option \<times> effect list" where
  \<comment> \<open>\<open>for (const num of DEST_NUMBERS) await sendText(num, msg)\<close>: a throw leaves the loop\<close>
  "send_dests w r text [] tr = (None, tr)"
| "send_dests w r text (num # nums) tr =
     (case sendText w r num text tr of
        (Some e, tr') \<Rightarrow> (Some e, tr')
      | (None, tr') \<Rightarrow> send_dests w r text nums tr')"

fun send_rows ::
  "world \<Rightarrow> columns \<Rightarrow> nat \<Rightarrow> string list list \<Rightarrow> effect list \<Rightarrow> sent_entry list
     \<Rightarrow> error option \<times> effect list \<times> sent_entry list" where
  \<comment> \<open>the \<open>for\<close> loop of /send_pending, from index \<open>idx\<close> on; the pauses are left out\<close>
  "send_rows w cols idx [] tr sent = (None, tr, sent)"
| "send_rows w cols idx (row # rows) tr sent =
     (case fecha_of w cols row of
        None \<Rightarrow> send_rows w cols (idx + 1) rows tr sent
      | Some fecha \<Rightarrow>
          if enviado_of cols row = si then send_rows w cols (idx + 1) rows tr sent
          else if \<not> cond (SEND_MODE w) fecha (now w)
          then send_rows w cols (idx + 1) rows tr sent
          else (case send_dests w (idx + 2)
                       (msg (nombre_of cols row) (cargo_of cols row) fecha)
                       (DEST_NUMBERS w) tr of
                  (Some e, tr1) \<Rightarrow> (Some e, tr1, sent)
                | (None, tr1) \<Rightarrow>
                    (case updateCell w (idx + 2) (iEnviado cols + 1) si tr1 of
                       (Some e, tr2) \<Rightarrow> (Some e, tr2, sent)
                     | (None, tr2) \<Rightarrow>
                         send_rows w cols (idx + 1) rows tr2
                           (sent @ [\<lparr>s_row = idx + 2, s_Nombre = nombre_of cols row\<rparr>]))))"

definition send_pending :: "world \<Rightarrow> response \<times> effect list" where
  \<comment> \<open>the response and the gateway calls of one request\<close>
  "send_pending w =
     (if DEST_NUMBERS w = [] then (Status400 NoDestinations, [])
      else (case sheet_values w of
              None \<Rightarrow> (Status500 ReadError, [])
            | Some values \<Rightarrow>
                (case readRows values of
                   (headers, rows) \<Rightarrow>
                     (case resolve headers of
                        None \<Rightarrow> (Status400 MissingHeaders, [])
                      | Some cols \<Rightarrow>
                          (case send_rows w cols 0 rows [] [] of
                             (Some e, tr, sent) \<Rightarrow> (Status500 e, tr)
                           | (None, tr, sent) \<Rightarrow>
                               (SentJson (format_YYYY_MM_DD (now w)) (SEND_MODE w) sent
                                  (length sent), tr))))))"

definition due :: "world \<Rightarrow> columns \<Rightarrow> string list \<Rightarrow> bool" where
  \<comment> \<open>the row passes both \<open>continue\<close> tests of the loops: a record of the due set\<close>
  "due w cols row =
     (case fecha_of w cols row of None \<Rightarrow> False
      | Some fecha \<Rightarrow> enviado_of cols row \<noteq> si \<and> cond (SEND_MODE w) fecha (now w))"

section \<open>Vocabulary of the statements\<close>

definition same_day :: "calendar \<Rightarrow> calendar \<Rightarrow> bool" where
  \<comment> \<open>equal year, month and day\<close>
  "same_day a b = (c_year a = c_year b \<and> c_month a = c_month b \<and> c_day a = c_day b)"

definition day_less :: "calendar \<Rightarrow> calendar \<Rightarrow> bool" where
  \<comment> \<open>an earlier calendar day\<close>
  "day_less a b =
     (c_year a < c_year b \<or> (c_year a = c_year b \<and>
       (c_month a < c_month b \<or> (c_month a = c_month b \<and> c_day a < c_day b))))"

definition ymd :: "int \<Rightarrow> nat \<Rightarrow> nat \<Rightarrow> calendar" where
  \<comment> \<open>a day at midnight\<close>
  "ymd y m d = \<lparr>c_year = y, c_month = m, c_day = d, c_ms = 0\<rparr>"

definition century_year :: "string \<Rightarrow> int" where
  \<comment> \<open>the year a text of two or of four digits stands for\<close>
  "century_year Y = (if length Y = 2 then 2000 + int (digits_value Y) else int (digits_value Y))"

definition dmy_fields :: "string \<Rightarrow> string \<Rightarrow> string \<Rightarrow> bool" where
  \<comment> \<open>day and month of one or two digits; a year of two digits, or of four not starting with 0\<close>
  "dmy_fields D M Y =
     (all_digits D \<and> length D \<le> 2 \<and> all_digits M \<and> length M \<le> 2 \<and> all_digits Y
      \<and> (length Y = 2 \<or> (length Y = 4 \<and> hd Y \<noteq> CHR ''0'')))"

fun effect_row :: "effect \<Rightarrow> nat" where
  \<comment> \<open>the sheet row a gateway call belongs to\<close>
  "effect_row (SendMessage r jid text ok) = r"
| "effect_row (UpdateCell r col v ok) = r"

fun is_update :: "effect \<Rightarrow> bool" where
  "is_update (UpdateCell r col v ok) = True"
| "is_update (SendMessage r jid text ok) = False"

fun failed_send :: "effect \<Rightarrow> bool" where
  "failed_send (SendMessage r jid text ok) = (\<not> ok)"
| "failed_send (UpdateCell r col v ok) = False"

definition sends_ok :: "nat \<Rightarrow> message \<Rightarrow> string list \<Rightarrow> effect list" where
  \<comment> \<open>one successful send of the reminder of row \<open>r\<close> to each address, in order\<close>
  "sends_ok r text nums = map (\<lambda>num. SendMessage r (jid_of num) text True) nums"

definition marked_after_sends :: "string list \<Rightarrow> effect list \<Rightarrow> bool" where
  \<comment> \<open>every cell write in the trace comes right after one successful send of the same row's
      reminder to each address\<close>
  "marked_after_sends D tr =
     (\<forall>pre r c v ok post. tr = pre @ UpdateCell r c v ok # post
        \<longrightarrow> (\<exists>pre' text. pre = pre' @ sends_ok r text D))"

definition unresolved :: "string list \<Rightarrow> bool" where
  \<comment> \<open>one of the four logical fields has no header cell that normalizes to its name\<close>
  "unresolved headers =
     (let names = set (map normalize_header headers)
      in ''nombre'' \<notin> names \<or> ''cargo'' \<notin> names
         \<or> (''fecha'' \<notin> names \<and> ''fecha (dd/mm/yy)'' \<notin> names \<and> ''fecha(dd/mm/yy)'' \<notin> names)
         \<or> ''enviado'' \<notin> names)"

definition si_variants :: "string set" where
  \<comment> \<open>the sent marker in every letter case; U+00CD is the capital of U+00ED\<close>
  "si_variants = {[CHR ''s'', CHR 0xED], [CHR ''S'', CHR 0xED],
                  [CHR ''s'', CHR 0xCD], [CHR ''S'', CHR 0xCD]}"

definition june_1 :: calendar where
  \<comment> \<open>1 June 2025, the date of the spec's scenarios\<close>
  "june_1 = ymd 2025 6 1"

definition headers_A :: "string list" where
  "headers_A = [''Nombre'', ''Cargo'', ''Fecha'', ''Enviado'']"

definition row_A :: "string list" where
  "row_A = [''Ana'', ''Jefa'', ''01/06/25'', ''no'']"

definition row_Luis :: "string list" where
  \<comment> \<open>a short row: no cell in the Enviado column\<close>
  "row_Luis = [''Luis'', ''Socio'', ''1/6/2025'']"

definition row_sent :: "string list" where
  \<comment> \<open>the sent marker in capitals, between blanks\<close>
  "row_sent = [''Ana'', ''Jefa'', ''01/06/25'', [CHR '' '', CHR ''S'', CHR 0xCD, CHR '' '']]"

definition cols_A :: columns where
  "cols_A = \<lparr>iNombre = 0, iCargo = 1, iFecha = 2, iEnviado = 3\<rparr>"

definition msg_A :: message where
  "msg_A = Recordatorio ''Ana'' ''Jefa'' ''01/06/2025''"

definition world_A :: world where
  \<comment> \<open>scenario A of the spec: one record due today, one destination, gateways that succeed\<close>
  "world_A =
     \<lparr>env_DEST_NUMBERS = Some ''5215500000001'', env_SEND_MODE = None,
      sheet_values = Some [headers_A, row_A],
      now = \<lparr>c_year = 2025, c_month = 6, c_day = 1, c_ms = 36000000\<rparr>,
      dayjs = dayjs_example, connReady = (\<lambda>tr. True),
      sendMessage_ok = (\<lambda>tr jid body. True), update_ok = (\<lambda>tr r col v. True)\<rparr>"

definition world_B :: world where
  \<comment> \<open>scenario B: the same, but every send fails\<close>
  "world_B = world_A\<lparr>sendMessage_ok := (\<lambda>tr jid body. False)\<rparr>"

definition world_two :: world where
  \<comment> \<open>two destinations and two due records, every send fails\<close>
  "world_two =
     world_A\<lparr>env_DEST_NUMBERS := Some ''5215500000001, 5215500000002'',
             sheet_values := Some [headers_A, row_A, row_Luis],
             sendMessage_ok := (\<lambda>tr jid body. False)\<rparr>"

definition world_not_ready :: world where
  \<comment> \<open>scenario A without an authenticated session\<close>
  "world_not_ready = world_A\<lparr>connReady := (\<lambda>tr. False)\<rparr>"

definition world_sent :: world where
  \<comment> \<open>scenario C: the record carries the sent marker, here in capitals and with blanks\<close>
  "world_sent =
     world_A\<lparr>sheet_values := Some [headers_A, row_sent]\<rparr>"

definition world_no_cargo :: world where
  \<comment> \<open>scenario D: no Cargo column\<close>
  "world_no_cargo =
     world_A\<lparr>sheet_values :=
       Some [[''Nombre'', ''Fecha'', ''Enviado''], [''Ana'', ''01/06/25'', ''no'']]\<rparr>"

definition world_no_header :: world where
  \<comment> \<open>an empty first row above a data row\<close>
  "world_no_header = world_A\<lparr>sheet_values := Some [[], row_A]\<rparr>"

definition world_empty :: world where
  \<comment> \<open>a sheet without rows\<close>
  "world_empty = world_A\<lparr>sheet_values := Some []\<rparr>"

definition world_not_ready_no_dest :: world where
  \<comment> \<open>no session and no destination configured\<close>
  "world_not_ready_no_dest = world_not_ready\<lparr>env_DEST_NUMBERS := None\<rparr>"

definition world_empty_no_dest :: world where
  \<comment> \<open>a sheet without rows and no destination configured\<close>
  "world_empty_no_dest = world_empty\<lparr>env_DEST_NUMBERS := None\<rparr>"

section \<open>The due test\<close>

lemma isSame_day_iff:
  "c_ms t < 86400000 \<Longrightarrow> isSame_day f t = same_day f t"
  unfolding isSame_day_def same_day_def valueOf_less_def startOf_day_def endOf_day_def
  by auto

lemma isBefore_day_iff:
  "c_ms t < 86400000 \<Longrightarrow> isBefore_day f t = day_less f t"
  unfolding isBefore_day_def valueOf_less_def endOf_day_def day_less_def
  by auto

lemma add_1_day_ms: "c_ms (add_1_day t) = c_ms t"
  by (simp add: add_1_day_def)

lemma day_less_next_iff:
  assumes f: "valid_calendar f" and t: "valid_calendar t"
  shows "day_less f (add_1_day t) = (day_less f t \<or> same_day f t)"
proof -
  let ?n = "days_in_month (c_year t) (c_month t)"
  have "c_day t < ?n \<or> (c_day t = ?n \<and> c_month t < 12) \<or> (c_day t = ?n \<and> c_month t = 12)"
    using t unfolding valid_calendar_def by linarith
  then consider (mid) "c_day t < ?n"
    | (eom) "c_day t = ?n" "c_month t < 12"
    | (eoy) "c_day t = ?n" "c_month t = 12"
    by blast
  then show ?thesis
  proof cases
    case mid
    then show ?thesis
      by (auto simp: add_1_day_def day_less_def same_day_def)
  next
    case eom
    have "c_year f = c_year t \<Longrightarrow> c_month f = c_month t \<Longrightarrow> c_day f \<le> c_day t"
      using f eom by (simp add: valid_calendar_def)
    moreover have "1 \<le> c_day f" using f by (simp add: valid_calendar_def)
    ultimately show ?thesis using eom
      by (auto simp: add_1_day_def day_less_def same_day_def)
  next
    case eoy
    have "c_year f = c_year t \<Longrightarrow> c_month f = c_month t \<Longrightarrow> c_day f \<le> c_day t"
      using f eoy by (simp add: valid_calendar_def)
    moreover have "1 \<le> c_day f" "c_month f \<le> 12" "1 \<le> c_month f"
      using f by (simp_all add: valid_calendar_def)
    ultimately show ?thesis using eoy
      by (auto simp: add_1_day_def day_less_def same_day_def)
  qed
qed

lemma until_today_iff:
  assumes f: "valid_calendar f" and t: "valid_calendar t"
  shows "isBefore_day f (add_1_day t) = (day_less f t \<or> same_day f t)"
proof -
  have "c_ms (add_1_day t) < 86400000"
    using t by (simp add: add_1_day_ms valid_calendar_def)
  then have "isBefore_day f (add_1_day t) = day_less f (add_1_day t)"
    by (rule isBefore_day_iff)
  then show ?thesis
    using day_less_next_iff [OF f t] by simp
qed

lemma valid_ymd_examples:
  "valid_calendar (ymd 2025 5 1)" "valid_calendar (ymd 2025 6 1)"
  "valid_calendar (ymd 2025 6 10)" "valid_calendar (ymd 2025 6 11)"
  by (simp_all add: valid_calendar_def ymd_def days_in_month_def)

text \<open>
  C4. Under mode "today" a record is due iff its date and the reference date agree in year,
  month and day; under mode "until_today" it is due iff its date is on or before the reference
  date, which is the same as being strictly earlier than the reference date plus one day.
\<close>

theorem cond_today_and_until_today:
  assumes "valid_calendar fecha" and "valid_calendar today"
  shows "(cond ''today'' fecha today \<longleftrightarrow> same_day fecha today)
       \<and> (cond ''until_today'' fecha today \<longleftrightarrow> day_less fecha today \<or> same_day fecha today)
       \<and> (cond ''until_today'' fecha today \<longleftrightarrow> day_less fecha (add_1_day today))"
proof -
  have ms: "c_ms today < 86400000"
    using assms(2) by (simp add: valid_calendar_def)
  have a: "cond ''today'' fecha today \<longleftrightarrow> same_day fecha today"
    by (simp add: cond_def isSame_day_iff [OF ms])
  have b: "cond ''until_today'' fecha today \<longleftrightarrow> day_less fecha today \<or> same_day fecha today"
    by (simp add: cond_def until_today_iff [OF assms])
  have c: "cond ''until_today'' fecha today \<longleftrightarrow> day_less fecha (add_1_day today)"
    using b day_less_next_iff [OF assms] by simp
  from a b c show ?thesis by blast
qed

text \<open>The dates of the spec: reference 10 June 2025, records of 1 May and of 11 June.\<close>

theorem cond_today_and_until_today_witness:
  "valid_calendar (ymd 2025 5 1) \<and> valid_calendar (ymd 2025 6 10)
   \<and> \<not> cond ''today'' (ymd 2025 5 1) (ymd 2025 6 10)
   \<and> cond ''until_today'' (ymd 2025 5 1) (ymd 2025 6 10)
   \<and> \<not> cond ''until_today'' (ymd 2025 6 11) (ymd 2025 6 10)"
proof -
  note a = cond_today_and_until_today [OF valid_ymd_examples(1) valid_ymd_examples(3)]
  note b = cond_today_and_until_today [OF valid_ymd_examples(4) valid_ymd_examples(3)]
  have "\<not> same_day (ymd 2025 5 1) (ymd 2025 6 10)"
    and "day_less (ymd 2025 5 1) (ymd 2025 6 10)"
    and "\<not> same_day (ymd 2025 6 11) (ymd 2025 6 10)"
    and "\<not> day_less (ymd 2025 6 11) (ymd 2025 6 10)"
    by (simp_all add: same_day_def day_less_def ymd_def)
  with a b valid_ymd_examples show ?thesis by blast
qed

text \<open>
  The counterexample to C3 as stated: under the unknown mode "weekly" a record dated a month
  before the reference date is due, which under "today" it is not.
\<close>

theorem cond_unknown_mode_counterexample:
  "cond ''weekly'' (ymd 2025 5 1) (ymd 2025 6 10)
   \<and> \<not> cond ''today'' (ymd 2025 5 1) (ymd 2025 6 10)
   \<and> \<not> same_day (ymd 2025 5 1) (ymd 2025 6 10)"
  by (simp add: cond_def isSame_day_def isBefore_day_def valueOf_less_def startOf_day_def
      endOf_day_def add_1_day_def days_in_month_def same_day_def ymd_def)

text \<open>
  C3, as the code has it. A mode other than "today" takes the other branch of the test, so an
  unknown mode behaves like "until_today": the record is due iff its date is on or before the
  reference date.
\<close>

theorem cond_unknown_mode:
  assumes "mode \<noteq> ''today''" and "valid_calendar fecha" and "valid_calendar today"
  shows "cond mode fecha today = cond ''until_today'' fecha today
       \<and> (cond mode fecha today \<longleftrightarrow> day_less fecha today \<or> same_day fecha today)"
  using assms(1) until_today_iff [OF assms(2,3)] by (simp add: cond_def)

text \<open>The unknown mode "weekly" on 10 June 2025: due on 1 May, not due on 11 June.\<close>

theorem cond_unknown_mode_witness:
  "''weekly'' \<noteq> ''today'' \<and> valid_calendar (ymd 2025 5 1) \<and> valid_calendar (ymd 2025 6 10)
   \<and> cond ''weekly'' (ymd 2025 5 1) (ymd 2025 6 10)
   \<and> \<not> cond ''weekly'' (ymd 2025 6 11) (ymd 2025 6 10)"
proof -
  have ne: "''weekly'' \<noteq> ''today''" by simp
  note a = cond_unknown_mode [OF ne valid_ymd_examples(1) valid_ymd_examples(3)]
  note b = cond_unknown_mode [OF ne valid_ymd_examples(4) valid_ymd_examples(3)]
  have "day_less (ymd 2025 5 1) (ymd 2025 6 10)"
    and "\<not> same_day (ymd 2025 6 11) (ymd 2025 6 10)"
    and "\<not> day_less (ymd 2025 6 11) (ymd 2025 6 10)"
    by (simp_all add: same_day_def day_less_def ymd_def)
  with a b ne valid_ymd_examples show ?thesis by blast
qed

section \<open>Parsing a date\<close>

lemma split_not_Nil: "split c s \<noteq> []"
  by (induction s) (auto split: list.splits)

lemma split_sep: "c \<notin> set a \<Longrightarrow> split c (a @ c # r) = a # split c r"
  by (induction a) (auto split: list.splits)

lemma split_no_sep: "c \<notin> set a \<Longrightarrow> split c a = [a]"
  by (induction a) (auto split: list.splits)

lemma trim_Nil: "trim [] = []"
  by (simp add: trim_def)

lemma split_three:
  assumes "c \<notin> set d" "c \<notin> set m" "c \<notin> set y"
  shows "split c (d @ c # m @ c # y) = [d, m, y]"
  using assms by (simp add: split_sep split_no_sep)

lemma split_Cons_cases:
  "split c s = a # rest \<Longrightarrow> c \<notin> set a \<and> ((rest = [] \<and> s = a) \<or> (\<exists>r. s = a @ c # r \<and> split c r = rest))"
proof (induction s arbitrary: a rest)
  case Nil
  then show ?case by simp
next
  case (Cons x xs)
  show ?case
  proof (cases "x = c")
    case True
    with Cons.prems show ?thesis by auto
  next
    case False
    obtain p ps where sp: "split c xs = p # ps"
      using split_not_Nil [of c xs] by (cases "split c xs") auto
    with Cons.prems False have a: "a = x # p" and r: "rest = ps" by auto
    from Cons.IH [OF sp] False a r show ?thesis by auto
  qed
qed

lemma split_three_D:
  assumes "split c s = [a, b, d]"
  shows "s = a @ c # b @ c # d \<and> c \<notin> set a \<and> c \<notin> set b \<and> c \<notin> set d"
proof -
  from split_Cons_cases [OF assms] obtain r1 where
    1: "c \<notin> set a" "s = a @ c # r1" "split c r1 = [b, d]" by auto
  from split_Cons_cases [OF 1(3)] obtain r2 where
    2: "c \<notin> set b" "r1 = b @ c # r2" "split c r2 = [d]" by auto
  from split_Cons_cases [OF 2(3)] split_not_Nil [of c]
  have 3: "c \<notin> set d" "r2 = d" by auto
  from 1 2 3 show ?thesis by simp
qed

lemma is_digit_not:
  assumes "is_digit c"
  shows "c \<noteq> CHR ''/''" "c \<noteq> CHR ''-''" "c \<noteq> CHR ''+''" "\<not> is_ws c"
  using assms by (auto simp: is_digit_def is_ws_def)

lemma all_digits_no_sep:
  assumes "all_digits s"
  shows "CHR ''/'' \<notin> set s" "CHR ''-'' \<notin> set s"
  using assms is_digit_not(1,2) by (auto simp: all_digits_def list_all_iff)

lemma all_digits_hd: "all_digits s \<Longrightarrow> is_digit (hd s)"
  by (cases s) (auto simp: all_digits_def)

lemma all_digits_last: "all_digits s \<Longrightarrow> is_digit (last s)"
  by (auto simp: all_digits_def list_all_iff)

lemma parseInt_digits:
  assumes "all_digits s"
  shows "parseInt s = Some (int (digits_value s))"
proof -
  have ne: "s \<noteq> []" using assms by (simp add: all_digits_def)
  have h: "is_digit (hd s)" using assms by (rule all_digits_hd)
  have d: "dropWhile is_ws s = s"
    using h is_digit_not(4) by (simp add: dropWhile_eq_self_iff)
  have t: "takeWhile is_digit s = s"
    using assms by (simp add: all_digits_def list_all_iff)
  show ?thesis
    unfolding parseInt_def Let_def d
    using ne is_digit_not(2,3) [OF h] by (simp add: t)
qed

lemma digits_value_snoc: "digits_value (xs @ [c]) = 10 * digits_value xs + (of_char c - 48)"
  by (simp add: digits_value_def)

lemma digits_value_append:
  "digits_value (xs @ ys) = digits_value xs * 10 ^ length ys + digits_value ys"
proof (induction ys rule: rev_induct)
  case Nil
  then show ?case by (simp add: digits_value_def)
next
  case (snoc y ys)
  have "digits_value (xs @ ys @ [y]) = 10 * digits_value (xs @ ys) + (of_char y - 48)"
    using digits_value_snoc [of "xs @ ys" y] by simp
  then show ?case
    using snoc.IH by (simp add: digits_value_snoc algebra_simps)
qed

lemma dec_snoc: "0 < n \<Longrightarrow> k < 10 \<Longrightarrow> dec (10 * n + k) = dec n @ [char_of (48 + k)]"
  by (subst dec.simps) simp

lemma digit_char: "is_digit c \<Longrightarrow> char_of (48 + (of_char c - 48 :: nat)) = c"
  by (simp add: is_digit_def)

lemma digit_less: "is_digit c \<Longrightarrow> (of_char c - 48 :: nat) < 10"
  by (auto simp: is_digit_def)

lemma digit_pos: "is_digit c \<Longrightarrow> c \<noteq> CHR ''0'' \<Longrightarrow> 0 < (of_char c - 48 :: nat)"
proof -
  assume d: "is_digit c" and ne: "c \<noteq> CHR ''0''"
  have "of_char c \<noteq> (48 :: nat)"
  proof
    assume "of_char c = (48 :: nat)"
    then have "(of_char c :: nat) = of_char CHR ''0''" by simp
    then have "c = CHR ''0''" by (simp only: of_char_eq_iff)
    with ne show False by simp
  qed
  moreover have "48 \<le> (of_char c :: nat)" using d by (simp add: is_digit_def)
  ultimately show ?thesis by linarith
qed

lemma dec_digits_value:
  "all_digits ys \<Longrightarrow> hd ys \<noteq> CHR ''0'' \<Longrightarrow> dec (digits_value ys) = ys \<and> 0 < digits_value ys"
proof (induction ys rule: rev_induct)
  case Nil
  then show ?case by (simp add: all_digits_def)
next
  case (snoc c xs)
  have dc: "is_digit c" using snoc.prems(1) by (simp add: all_digits_def)
  show ?case
  proof (cases "xs = []")
    case True
    then have "c \<noteq> CHR ''0''" using snoc.prems(2) by simp
    then have pos: "0 < (of_char c - 48 :: nat)" by (rule digit_pos [OF dc])
    have "dec (of_char c - 48) = [c]"
      using digit_less [OF dc] digit_char [OF dc] by (subst dec.simps) simp
    with True pos show ?thesis by (simp add: digits_value_def)
  next
    case False
    then have "all_digits xs" "hd xs \<noteq> CHR ''0''"
      using snoc.prems by (auto simp: all_digits_def)
    with snoc.IH have ih: "dec (digits_value xs) = xs" "0 < digits_value xs" by auto
    show ?thesis
      using dec_snoc [OF ih(2) digit_less [OF dc]] ih digit_char [OF dc]
      by (simp add: digits_value_snoc)
  qed
qed

lemma dec_2000:
  assumes "all_digits y" "length y = 2"
  shows "dec (2000 + digits_value y) = ''20'' @ y"
proof -
  have a: "all_digits (''20'' @ y)"
    using assms(1) by (simp add: all_digits_def is_digit_def)
  have "digits_value ''20'' = 20"
    by (simp add: digits_value_def)
  then have "digits_value (''20'' @ y) = 2000 + digits_value y"
    using digits_value_append [of "''20''" y] assms(2) by simp
  with dec_digits_value [OF a] show ?thesis by simp
qed

lemma trim_idle:
  assumes "s \<noteq> []" "\<not> is_ws (hd s)" "\<not> is_ws (last s)"
  shows "trim s = s"
proof -
  have a: "dropWhile is_ws s = s"
    using assms(2) by (simp add: dropWhile_eq_self_iff)
  have "\<not> is_ws (hd (rev s))"
    using assms(1,3) by (simp add: hd_rev)
  then have b: "dropWhile is_ws (rev s) = rev s"
    by (simp add: dropWhile_eq_self_iff)
  show ?thesis
    by (simp add: trim_def a b)
qed

lemma match_item:
  assumes "\<forall>c \<in> set a. cls c" and "rest = [] \<or> \<not> cls (hd rest)"
    and "lo \<le> length a" and "length a \<le> hi" and "match_items its rest = Some caps"
  shows "match_items (Item cls lo hi # its) (a @ rest) = Some (a # caps)"
proof -
  have "takeWhile cls rest = []"
    using assms(2) by (cases rest) auto
  then have tw: "takeWhile cls (a @ rest) = a"
    using assms(1) by (simp add: takeWhile_append2)
  have m: "min hi (length a) = length a"
    using assms(4) by simp
  have r: "rev [lo..<Suc (length a)] = length a # rev [lo..<length a]"
    using assms(3) by simp
  show ?thesis
    using assms(5) by (simp add: tw m r del: upt_Suc)
qed

lemma first_some_one: "first_some [x] = x"
  by (cases x) simp_all

lemma match_item_Nil:
  "match_items (Item cls 0 hi # its) [] = map_option ((#) []) (match_items its [])"
  by (simp add: first_some_one)

lemma match_items_rest:
  "match_items [Item c1 0 h1, Item c2 0 h2, Item c3 0 h3, Item c4 0 h4, Item c5 0 h5,
      Item c6 0 h6, Item c7 0 h7, Item c8 0 h8] []
   = Some [[], [], [], [], [], [], [], []]"
  by (simp add: match_item_Nil del: match_items.simps(2))

lemma is_digit_classes:
  assumes "is_digit c"
  shows "\<not> is_dash c" "\<not> is_T_or_space c" "\<not> is_colon c" "\<not> is_dot_or_colon c"
    "c \<noteq> CHR ''Z''" "c \<noteq> CHR ''z''"
  using assms by (auto simp: is_digit_def is_dash_def is_T_or_space_def is_colon_def
      is_dot_or_colon_def is_ws_def)

lemma match_YMD:
  assumes "all_digits ys" "length ys = 4" "all_digits ms" "length ms \<le> 2"
    "all_digits ds" "length ds \<le> 2"
  shows "match_items (REGEX_PARSE n) (ys @ CHR ''-'' # ms @ CHR ''-'' # ds)
       = Some [ys, ''-'', ms, ''-'', ds, [], [], [], [], [], [], [], []]"
proof -
  let ?time = "[Item is_T_or_space 0 n, Item is_digit 0 2, Item is_colon 0 1,
      Item is_digit 0 2, Item is_colon 0 1, Item is_digit 0 2, Item is_dot_or_colon 0 1,
      Item is_digit 0 n]"
  let ?none = "[[], [], [], [], [], [], [], []] :: string list"
  have dig: "\<forall>c \<in> set ys. is_digit c" "\<forall>c \<in> set ms. is_digit c" "\<forall>c \<in> set ds. is_digit c"
    and ne: "ms \<noteq> []" "ds \<noteq> []"
    using assms by (simp_all add: all_digits_def list_all_iff)
  have hm: "\<not> is_dash (hd ms)" and hd: "\<not> is_dash (hd ds)"
    using assms(3,5) is_digit_classes(1) by (simp_all add: all_digits_hd)
  have dash: "\<forall>c \<in> set ''-''. is_dash c" "\<not> is_digit CHR ''-''"
    by (simp_all add: is_dash_def is_digit_def)
  have 6: "match_items ?time [] = Some ?none"
    by (rule match_items_rest)
  have "match_items (Item is_digit 0 2 # ?time) (ds @ []) = Some (ds # ?none)"
    by (rule match_item [OF dig(3) _ _ assms(6) 6]) simp_all
  then have 5: "match_items (Item is_digit 0 2 # ?time) ds = Some (ds # ?none)"
    by (simp del: match_items.simps)
  have 4: "match_items (Item is_dash 0 1 # Item is_digit 0 2 # ?time) (''-'' @ ds)
      = Some (''-'' # ds # ?none)"
    by (rule match_item [OF dash(1) _ _ _ 5]) (simp_all add: hd)
  have 3: "match_items (Item is_digit 0 2 # Item is_dash 0 1 # Item is_digit 0 2 # ?time)
         (ms @ ''-'' @ ds) = Some (ms # ''-'' # ds # ?none)"
    by (rule match_item [OF dig(2) _ _ assms(4) 4]) (simp_all add: dash(2))
  have 2: "match_items (Item is_dash 0 1 # Item is_digit 0 2 # Item is_dash 0 1
           # Item is_digit 0 2 # ?time)
         (''-'' @ ms @ ''-'' @ ds) = Some (''-'' # ms # ''-'' # ds # ?none)"
    by (rule match_item [OF dash(1) _ _ _ 3]) (simp_all add: hm ne)
  have 1: "match_items (Item is_digit 4 4 # Item is_dash 0 1 # Item is_digit 0 2
           # Item is_dash 0 1 # Item is_digit 0 2 # ?time)
         (ys @ ''-'' @ ms @ ''-'' @ ds) = Some (ys # ''-'' # ms # ''-'' # ds # ?none)"
    by (rule match_item [OF dig(1) _ _ _ 2]) (simp_all add: dash(2) assms(2))
  then show ?thesis
    unfolding REGEX_PARSE_def by (simp del: match_items.simps)
qed

lemma add_days_in_month:
  "Suc k \<le> days_in_month y m \<Longrightarrow>
     (add_1_day ^^ k) \<lparr>c_year = y, c_month = m, c_day = 1, c_ms = t\<rparr>
     = \<lparr>c_year = y, c_month = m, c_day = Suc k, c_ms = t\<rparr>"
  by (induction k) (simp_all add: add_1_day_def)

lemma make_date_valid:
  assumes "valid_calendar (ymd y m d)" and "99 < y"
  shows "make_date y (int m - 1) d 0 = ymd y m d"
proof -
  from assms(1) have m: "1 \<le> m" "m \<le> 12" and d: "1 \<le> d" "d \<le> days_in_month y m"
    by (simp_all add: valid_calendar_def ymd_def)
  have a: "(y * 12 + (int m - 1)) div 12 = y" and b: "(y * 12 + (int m - 1)) mod 12 = int m - 1"
    using m by auto
  have c: "nat (int m - 1) + 1 = m"
    using m by simp
  obtain k where k: "d = Suc k"
    using d(1) by (cases d) auto
  have "(add_1_day ^^ k) \<lparr>c_year = y, c_month = m, c_day = 1, c_ms = 0\<rparr>
       = \<lparr>c_year = y, c_month = m, c_day = Suc k, c_ms = 0\<rparr>"
    using d(2) k by (intro add_days_in_month) simp
  then show ?thesis
    using assms(2) a b c k by (simp add: make_date_def ymd_def Let_def)
qed

lemma dayjs_parse_YMD:
  assumes "all_digits ys" "length ys = 4" "all_digits ms" "length ms \<le> 2"
    "all_digits ds" "length ds \<le> 2"
  shows "dayjs_parse Date_parse (ys @ CHR ''-'' # ms @ CHR ''-'' # ds)
       = Some (make_date (int (digits_value ys)) (int (digits_value ms) - 1) (digits_value ds) 0)"
proof -
  have ne: "ms \<noteq> []" "ds \<noteq> []"
    using assms by (simp_all add: all_digits_def)
  have "is_digit (last (ys @ CHR ''-'' # ms @ CHR ''-'' # ds))"
    using all_digits_last [OF assms(5)] ne by simp
  then have z: "last (ys @ CHR ''-'' # ms @ CHR ''-'' # ds) \<noteq> CHR ''Z''"
    "last (ys @ CHR ''-'' # ms @ CHR ''-'' # ds) \<noteq> CHR ''z''"
    using is_digit_classes(5,6) by blast+
  show ?thesis
    unfolding dayjs_parse_def match_YMD [OF assms]
    using z ne by (simp add: or_digits_def del: match_items.simps)
qed

lemma dayjs_parse_valid:
  assumes "all_digits ys" "length ys = 4" "hd ys \<noteq> CHR ''0''" "all_digits ms" "length ms \<le> 2"
    "all_digits ds" "length ds \<le> 2"
    "valid_calendar (ymd (int (digits_value ys)) (digits_value ms) (digits_value ds))"
  shows "dayjs_parse Date_parse (ys @ CHR ''-'' # ms @ CHR ''-'' # ds)
       = Some (ymd (int (digits_value ys)) (digits_value ms) (digits_value ds))"
proof -
  have "dec (digits_value ys) = ys"
    using dec_digits_value [OF assms(1,3)] by simp
  have big: "99 < int (digits_value ys)"
  proof (rule ccontr)
    assume "\<not> 99 < int (digits_value ys)"
    then have "digits_value ys < 100" by simp
    then have "length (dec (digits_value ys)) \<le> 2"
      by (subst dec.simps, subst dec.simps) (auto split: if_splits)
    with \<open>dec (digits_value ys) = ys\<close> assms(2) show False by simp
  qed
  show ?thesis
    unfolding dayjs_parse_YMD [OF assms(1,2,4,5,6,7)]
    using make_date_valid [OF assms(8) big] by simp
qed

lemma year_of_digits:
  assumes "all_digits Y" "length Y = 2 \<or> (length Y = 4 \<and> hd Y \<noteq> CHR ''0'')"
  shows "number_toString (year_of Y) = (if length Y = 2 then ''20'' @ Y else Y)"
    and "int (digits_value (if length Y = 2 then ''20'' @ Y else Y)) = century_year Y"
    and "all_digits (if length Y = 2 then ''20'' @ Y else Y)"
    and "length (if length Y = 2 then ''20'' @ Y else Y) = 4"
proof -
  have p: "parseInt Y = Some (int (digits_value Y))"
    using assms(1) by (rule parseInt_digits)
  show "number_toString (year_of Y) = (if length Y = 2 then ''20'' @ Y else Y)"
  proof (cases "length Y = 2")
    case True
    have "nat (2000 + int (digits_value Y)) = 2000 + digits_value Y" by simp
    then show ?thesis
      using True p dec_2000 [OF assms(1) True]
      by (simp add: year_of_def number_toString_def)
  next
    case False
    with assms(2) have "hd Y \<noteq> CHR ''0''" by simp
    then show ?thesis
      using False p dec_digits_value [OF assms(1)]
      by (simp add: year_of_def number_toString_def)
  qed
  have "digits_value ''20'' = 20"
    by (simp add: digits_value_def)
  then have "length Y = 2 \<Longrightarrow> digits_value (''20'' @ Y) = 2000 + digits_value Y"
    using digits_value_append [of "''20''" Y] by simp
  then show "int (digits_value (if length Y = 2 then ''20'' @ Y else Y)) = century_year Y"
    by (simp add: century_year_def)
  show "all_digits (if length Y = 2 then ''20'' @ Y else Y)"
    using assms(1) by (simp add: all_digits_def is_digit_def)
  show "length (if length Y = 2 then ''20'' @ Y else Y) = 4"
    using assms(2) by auto
qed

lemma trim_dmy:
  assumes "all_digits D" "all_digits Y"
  shows "trim (D @ ''/'' @ M @ ''/'' @ Y) = D @ ''/'' @ M @ ''/'' @ Y"
proof -
  have "D \<noteq> []" "Y \<noteq> []" using assms by (simp_all add: all_digits_def)
  then have "hd (D @ ''/'' @ M @ ''/'' @ Y) = hd D" "last (D @ ''/'' @ M @ ''/'' @ Y) = last Y"
    by simp_all
  then show ?thesis
    using all_digits_hd [OF assms(1)] all_digits_last [OF assms(2)] is_digit_not(4)
    by (intro trim_idle) auto
qed

lemma parse_few_fields:
  assumes "length (split CHR ''/'' (trim s)) < 3"
  shows "parseDDMMYY P (Some s) = None" "parseDDMMYY_part_000 P (Some s) = None"
  using assms by (simp_all add: parseDDMMYY_def parseDDMMYY_part_000_def)

lemma parse_dmy:
  assumes "dmy_fields D M Y" and "trim s = D @ ''/'' @ M @ ''/'' @ Y"
  shows "parseDDMMYY P (Some s) = P ((if length Y = 2 then ''20'' @ Y else Y) @ ''-'' @ M @ ''-'' @ D)"
    and "parseDDMMYY_part_000 P (Some s) = parseDDMMYY P (Some s)"
proof -
  have d: "all_digits D" "all_digits M" "all_digits Y"
    and y: "length Y = 2 \<or> (length Y = 4 \<and> hd Y \<noteq> CHR ''0'')"
    using assms(1) by (simp_all add: dmy_fields_def)
  have ne: "s \<noteq> []"
    using assms(2) trim_Nil by auto
  have sp: "split CHR ''/'' (trim s) = [D, M, Y]"
    using split_three [of "CHR ''/''" D M Y] all_digits_no_sep(1) d assms(2) by simp
  have nem: "D \<noteq> []" "M \<noteq> []" "Y \<noteq> []"
    using d by (simp_all add: all_digits_def)
  show 1: "parseDDMMYY P (Some s) = P ((if length Y = 2 then ''20'' @ Y else Y) @ ''-'' @ M @ ''-'' @ D)"
    using ne sp year_of_digits(1) [OF d(3) y]
    by (simp add: parseDDMMYY_def ymd_text_def)
  show "parseDDMMYY_part_000 P (Some s) = parseDDMMYY P (Some s)"
    using ne sp nem by (simp add: parseDDMMYY_def parseDDMMYY_part_000_def)
qed


lemma parse_fixed:
  "parseDDMMYY P None = None" "parseDDMMYY P (Some []) = None"
  "parseDDMMYY P (Some ''10-5-24'') = None"
  "parseDDMMYY_part_000 P None = None" "parseDDMMYY_part_000 P (Some []) = None"
  "parseDDMMYY_part_000 P (Some ''10-5-24'') = None"
  by (simp_all add: parseDDMMYY_def parseDDMMYY_part_000_def trim_def is_ws_def)

lemma century_text:
  assumes "all_digits Y" "length Y = 2 \<or> (length Y = 4 \<and> hd Y \<noteq> CHR ''0'')"
  shows "hd (if length Y = 2 then ''20'' @ Y else Y) \<noteq> CHR ''0''"
  using assms(2) by auto

text \<open>
  C5, as the code has it. \<open>parseDDMMYY\<close>, in both source files, is a total function (it
  never raises) that returns null for a missing or empty cell and for a text with fewer than
  three fields between slashes, such as 10-5-24. For a text D/M/Y of digits it hands 20Y-M-D
  (two-digit Y) or Y-M-D (four-digit Y) to the date library, and when D/M/Y is a day of the
  calendar the result is that day, in year 2000+Y or in year Y.
\<close>

theorem parseDDMMYY_dates:
  assumes "f = parseDDMMYY \<or> f = parseDDMMYY_part_000"
  shows "f P None = None \<and> f P (Some []) = None \<and> f P (Some ''10-5-24'') = None
       \<and> (length (split CHR ''/'' (trim s)) < 3 \<longrightarrow> f P (Some s) = None)
       \<and> (dmy_fields D M Y \<and> trim s = D @ ''/'' @ M @ ''/'' @ Y \<longrightarrow>
            f P (Some s) = P ((if length Y = 2 then ''20'' @ Y else Y) @ ''-'' @ M @ ''-'' @ D)
          \<and> (valid_calendar (ymd (century_year Y) (digits_value M) (digits_value D))
               \<longrightarrow> f (dayjs_parse Date_parse) (Some s)
                     = Some (ymd (century_year Y) (digits_value M) (digits_value D))))"
proof -
  let ?yt = "if length Y = 2 then ''20'' @ Y else Y"
  let ?c = "ymd (century_year Y) (digits_value M) (digits_value D)"
  have fixed: "f P None = None \<and> f P (Some []) = None \<and> f P (Some ''10-5-24'') = None"
    using assms parse_fixed by auto
  have few: "f P (Some s) = None" if "length (split CHR ''/'' (trim s)) < 3"
    using assms parse_few_fields [OF that] by auto
  have dmy: "f P (Some s) = P (?yt @ ''-'' @ M @ ''-'' @ D)
          \<and> (valid_calendar ?c \<longrightarrow> f (dayjs_parse Date_parse) (Some s) = Some ?c)"
    if h: "dmy_fields D M Y \<and> trim s = D @ ''/'' @ M @ ''/'' @ Y"
  proof -
    from h have df: "dmy_fields D M Y" and ts: "trim s = D @ ''/'' @ M @ ''/'' @ Y" by simp_all
    have d: "all_digits D" "all_digits M" "all_digits Y" "length D \<le> 2" "length M \<le> 2"
      and y: "length Y = 2 \<or> (length Y = 4 \<and> hd Y \<noteq> CHR ''0'')"
      using df by (simp_all add: dmy_fields_def)
    note yr = year_of_digits [OF d(3) y]
    have 1: "f Q (Some s) = Q (?yt @ ''-'' @ M @ ''-'' @ D)" for Q
      using assms parse_dmy [OF df ts] by auto
    have 2: "f (dayjs_parse Date_parse) (Some s) = Some ?c" if v: "valid_calendar ?c"
    proof -
      have "valid_calendar (ymd (int (digits_value ?yt)) (digits_value M) (digits_value D))"
        unfolding yr(2) by (rule v)
      then have "dayjs_parse Date_parse (?yt @ CHR ''-'' # M @ CHR ''-'' # D)
            = Some (ymd (int (digits_value ?yt)) (digits_value M) (digits_value D))"
        by (rule dayjs_parse_valid [OF yr(3) yr(4) century_text [OF d(3) y] d(2) d(5) d(1) d(4)])
      then have "dayjs_parse Date_parse (?yt @ ''-'' @ M @ ''-'' @ D) = Some ?c"
        unfolding yr(2) by simp
      with 1 [of "dayjs_parse Date_parse"] show ?thesis by (simp only:)
    qed
    from 1 [of P] 2 show ?thesis by blast
  qed
  from fixed few dmy show ?thesis by blast
qed

lemma dmy_examples:
  "dmy_fields ''1'' ''6'' ''25''" "dmy_fields ''01'' ''06'' ''2025''"
  "trim ''1/6/25'' = ''1'' @ ''/'' @ ''6'' @ ''/'' @ ''25''"
  "trim '' 01/06/2025'' = ''01'' @ ''/'' @ ''06'' @ ''/'' @ ''2025''"
  "ymd (century_year ''25'') (digits_value ''6'') (digits_value ''1'') = ymd 2025 6 1"
  "ymd (century_year ''2025'') (digits_value ''06'') (digits_value ''01'') = ymd 2025 6 1"
  "valid_calendar (ymd 2025 6 1)"
  by (simp_all add: dmy_fields_def all_digits_def is_digit_def trim_def is_ws_def
      century_year_def digits_value_def valid_calendar_def ymd_def days_in_month_def leap_def)

text \<open>The texts 1/6/25 and 01/06/2025, the second after a blank and in the second source file.\<close>

theorem parseDDMMYY_dates_witness:
  "dmy_fields ''1'' ''6'' ''25'' \<and> valid_calendar (ymd 2025 6 1)
   \<and> parseDDMMYY dayjs_example (Some ''1/6/25'') = Some (ymd 2025 6 1)
   \<and> dmy_fields ''01'' ''06'' ''2025''
   \<and> parseDDMMYY_part_000 dayjs_example (Some '' 01/06/2025'') = Some (ymd 2025 6 1)"
proof -
  let ?c1 = "ymd (century_year ''25'') (digits_value ''6'') (digits_value ''1'')"
  let ?c2 = "ymd (century_year ''2025'') (digits_value ''06'') (digits_value ''01'')"
  have v1: "valid_calendar ?c1"
    unfolding dmy_examples(5) by (rule dmy_examples(7))
  have v2: "valid_calendar ?c2"
    unfolding dmy_examples(6) by (rule dmy_examples(7))
  have "parseDDMMYY (dayjs_parse (\<lambda>s. None)) (Some ''1/6/25'') = Some ?c1"
    using parseDDMMYY_dates [of parseDDMMYY _ "''1/6/25''" "''1''" "''6''" "''25''" "\<lambda>s. None"]
      dmy_examples(1,3) v1 by blast
  then have 1: "parseDDMMYY dayjs_example (Some ''1/6/25'') = Some (ymd 2025 6 1)"
    by (simp only: dmy_examples(5) dayjs_example_def)
  have "parseDDMMYY_part_000 (dayjs_parse (\<lambda>s. None)) (Some '' 01/06/2025'') = Some ?c2"
    using parseDDMMYY_dates [of parseDDMMYY_part_000 _ "'' 01/06/2025''" "''01''" "''06''"
        "''2025''" "\<lambda>s. None"]
      dmy_examples(2,4) v2 by blast
  then have 2: "parseDDMMYY_part_000 dayjs_example (Some '' 01/06/2025'') = Some (ymd 2025 6 1)"
    by (simp only: dmy_examples(6) dayjs_example_def)
  from 1 2 dmy_examples(1,2,7) show ?thesis by blast
qed

lemma dayjs_example_2025_6_1: "dayjs_example ''2025-6-1'' = Some (ymd 2025 6 1)"
proof -
  have "dayjs_parse (\<lambda>s. None) (''2025'' @ CHR ''-'' # ''6'' @ CHR ''-'' # ''1'')
      = Some (ymd (int (digits_value ''2025'')) (digits_value ''6'') (digits_value ''1''))"
    by (rule dayjs_parse_valid)
       (simp_all add: all_digits_def is_digit_def digits_value_def valid_calendar_def ymd_def
          days_in_month_def)
  then show ?thesis
    by (simp add: dayjs_example_def digits_value_def del: match_items.simps)
qed

lemma dayjs_example_2025_06_01: "dayjs_example ''2025-06-01'' = Some (ymd 2025 6 1)"
proof -
  have "dayjs_parse (\<lambda>s. None) (''2025'' @ CHR ''-'' # ''06'' @ CHR ''-'' # ''01'')
      = Some (ymd (int (digits_value ''2025'')) (digits_value ''06'') (digits_value ''01''))"
    by (rule dayjs_parse_valid)
       (simp_all add: all_digits_def is_digit_def digits_value_def valid_calendar_def ymd_def
          days_in_month_def)
  then show ?thesis
    by (simp add: dayjs_example_def digits_value_def del: match_items.simps)
qed

text \<open>
  The counterexample to C5 as stated: two texts that are not of the form D/M/Y and are parsed
  all the same, one with a fourth field and one with letters after the year.
\<close>

theorem parseDDMMYY_nonconforming_counterexample:
  "parseDDMMYY dayjs_example (Some ''1/6/25/extra'') = Some (ymd 2025 6 1)
   \<and> parseDDMMYY dayjs_example (Some ''1/6/2025abc'') = Some (ymd 2025 6 1)"
proof -
  have "ymd_text ''1'' ''6'' ''25'' = ''2025-6-1''" "ymd_text ''1'' ''6'' ''2025abc'' = ''2025-6-1''"
    by code_simp+
  then show ?thesis
    using dayjs_example_2025_6_1 by (simp add: parseDDMMYY_def trim_def is_ws_def)
qed

text \<open>
  A text that names no day of the calendar. For 31/02/2024 \<open>parseDDMMYY\<close> asks for a
  strict reading and would keep null; the library, called without the extension that reads
  patterns, carries the thirty-first day of February over into March, whatever the engine's
  own parser does. The statement above leaves such texts out.
\<close>

lemma parseDDMMYY_31_02_2024:
  "parseDDMMYY (dayjs_parse Date_parse) (Some ''31/02/2024'') = Some (ymd 2024 3 2)
   \<and> parseDDMMYY_part_000 (dayjs_parse Date_parse) (Some ''31/02/2024'') = Some (ymd 2024 3 2)"
proof -
  have t: "ymd_text ''31'' ''02'' ''2024'' = ''2024'' @ CHR ''-'' # ''02'' @ CHR ''-'' # ''31''"
    by code_simp
  let ?feb = "\<lparr>c_year = 2024, c_month = 2, c_day = 1, c_ms = 0\<rparr>"
  have a: "(add_1_day ^^ 28) ?feb = \<lparr>c_year = 2024, c_month = 2, c_day = Suc 28, c_ms = 0\<rparr>"
    by (rule add_days_in_month) (simp add: days_in_month_def leap_def)
  have "(add_1_day ^^ (2 + 28)) ?feb = (add_1_day ^^ 2) ((add_1_day ^^ 28) ?feb)"
    by (simp only: funpow_add o_apply)
  also have "\<dots> = ymd 2024 3 2"
    unfolding a by (simp add: eval_nat_numeral add_1_day_def days_in_month_def leap_def ymd_def)
  finally have b: "(add_1_day ^^ 30) ?feb = ymd 2024 3 2"
    by simp
  have "make_date 2024 1 31 0 = (add_1_day ^^ 30) ?feb"
    by (simp add: make_date_def Let_def numeral_2_eq_2 del: funpow.simps)
  with b have m: "make_date 2024 1 31 0 = ymd 2024 3 2"
    by (simp only:)
  have "dayjs_parse Date_parse (''2024'' @ CHR ''-'' # ''02'' @ CHR ''-'' # ''31'')
      = Some (make_date (int (digits_value ''2024'')) (int (digits_value ''02'') - 1)
          (digits_value ''31'') 0)"
    by (rule dayjs_parse_YMD) (simp_all add: all_digits_def is_digit_def)
  then have "dayjs_parse Date_parse (ymd_text ''31'' ''02'' ''2024'') = Some (ymd 2024 3 2)"
    unfolding t using m by (simp add: digits_value_def)
  then show ?thesis
    by (simp add: parseDDMMYY_def parseDDMMYY_part_000_def trim_def is_ws_def)
qed

text \<open>
  C10. A text with more than two slashes is not rejected: \<open>parseDDMMYY\<close> hands the date
  built from the first three fields to the library and ignores the fields after them, so the
  result is the one of the three-field text. The second source file does the same once the
  first three fields are not empty.
\<close>

theorem parseDDMMYY_extra_fields:
  assumes "CHR ''/'' \<notin> set d" and "CHR ''/'' \<notin> set m" and "CHR ''/'' \<notin> set y"
    and "trim s = d @ ''/'' @ m @ ''/'' @ y @ ''/'' @ extra"
  shows "parseDDMMYY P (Some s) = P (ymd_text d m y)
       \<and> parseDDMMYY_part_000 P (Some s)
           = (if d = [] \<or> m = [] \<or> y = [] then None else P (ymd_text d m y))
       \<and> (\<forall>s3. trim s3 = d @ ''/'' @ m @ ''/'' @ y \<longrightarrow>
             parseDDMMYY P (Some s3) = parseDDMMYY P (Some s)
             \<and> parseDDMMYY_part_000 P (Some s3) = parseDDMMYY_part_000 P (Some s))"
proof -
  have ne: "s \<noteq> []"
    using assms(4) trim_Nil by auto
  have "split CHR ''/'' (d @ CHR ''/'' # m @ CHR ''/'' # y @ CHR ''/'' # extra)
        = d # m # y # split CHR ''/'' extra"
    using assms(1-3) by (simp add: split_sep)
  then have sp: "split CHR ''/'' (trim s) = d # m # y # split CHR ''/'' extra"
    using assms(4) by simp
  have a: "parseDDMMYY P (Some s) = P (ymd_text d m y)"
    using ne sp by (simp add: parseDDMMYY_def)
  have b: "parseDDMMYY_part_000 P (Some s)
           = (if d = [] \<or> m = [] \<or> y = [] then None else P (ymd_text d m y))"
    using ne sp by (simp add: parseDDMMYY_part_000_def)
  have c: "parseDDMMYY P (Some s3) = parseDDMMYY P (Some s)
         \<and> parseDDMMYY_part_000 P (Some s3) = parseDDMMYY_part_000 P (Some s)"
    if t3: "trim s3 = d @ ''/'' @ m @ ''/'' @ y" for s3
  proof -
    have ne3: "s3 \<noteq> []"
      using t3 trim_Nil by auto
    have sp3: "split CHR ''/'' (trim s3) = [d, m, y]"
      using split_three [OF assms(1-3)] t3 by simp
    show ?thesis
      using ne3 sp3 a b by (simp add: parseDDMMYY_def parseDDMMYY_part_000_def)
  qed
  from a b c show ?thesis by blast
qed

text \<open>The text 1/6/25/extra, after a blank.\<close>

theorem parseDDMMYY_extra_fields_witness:
  "CHR ''/'' \<notin> set ''1'' \<and> CHR ''/'' \<notin> set ''6'' \<and> CHR ''/'' \<notin> set ''25''
   \<and> trim '' 1/6/25/extra'' = ''1'' @ ''/'' @ ''6'' @ ''/'' @ ''25'' @ ''/'' @ ''extra''
   \<and> parseDDMMYY dayjs_example (Some '' 1/6/25/extra'') = Some (ymd 2025 6 1)
   \<and> parseDDMMYY_part_000 dayjs_example (Some '' 1/6/25/extra'') = Some (ymd 2025 6 1)
   \<and> parseDDMMYY dayjs_example (Some ''1/6/25'')
       = parseDDMMYY dayjs_example (Some '' 1/6/25/extra'')"
proof -
  have h: "CHR ''/'' \<notin> set ''1''" "CHR ''/'' \<notin> set ''6''" "CHR ''/'' \<notin> set ''25''"
    by simp_all
  have t: "trim '' 1/6/25/extra'' = ''1'' @ ''/'' @ ''6'' @ ''/'' @ ''25'' @ ''/'' @ ''extra''"
    by (simp add: trim_def is_ws_def)
  have t3: "trim ''1/6/25'' = ''1'' @ ''/'' @ ''6'' @ ''/'' @ ''25''"
    by (simp add: trim_def is_ws_def)
  have "ymd_text ''1'' ''6'' ''25'' = ''2025-6-1''"
    by code_simp
  then have y: "dayjs_example (ymd_text ''1'' ''6'' ''25'') = Some (ymd 2025 6 1)"
    by (simp only: dayjs_example_2025_6_1)
  note a = parseDDMMYY_extra_fields [OF h t, of dayjs_example]
  have 1: "parseDDMMYY dayjs_example (Some '' 1/6/25/extra'') = Some (ymd 2025 6 1)"
    using a [THEN conjunct1] y by simp
  have 2: "parseDDMMYY_part_000 dayjs_example (Some '' 1/6/25/extra'') = Some (ymd 2025 6 1)"
    using a [THEN conjunct2, THEN conjunct1] y by simp
  have 3: "parseDDMMYY dayjs_example (Some ''1/6/25'')
      = parseDDMMYY dayjs_example (Some '' 1/6/25/extra'')"
    using a [THEN conjunct2, THEN conjunct2, rule_format, OF t3] by (rule conjunct1)
  from h t 1 2 3 show ?thesis by blast
qed

section \<open>Headers\<close>

lemma hmap_None_iff: "hmap headers k = None \<longleftrightarrow> k \<notin> set (map normalize_header headers)"
proof -
  have "fst ` set (zip (map normalize_header headers) [0..<length headers]) = set (map normalize_header headers)"
    by (metis length_map length_upt map_fst_zip minus_nat.diff_0 set_map)
  then show ?thesis
    by (simp add: hmap_def map_of_eq_None_iff)
qed

lemma coalesce_None_iff:
  "coalesce a (coalesce b c) = None \<longleftrightarrow> a = None \<and> b = None \<and> c = None"
  by (simp add: coalesce_def split: option.splits)

lemma resolve_None_iff: "resolve headers = None \<longleftrightarrow> unresolved headers"
proof -
  have "resolve headers = None \<longleftrightarrow>
          hmap headers ''nombre'' = None \<or> hmap headers ''cargo'' = None
          \<or> coalesce (hmap headers ''fecha'')
                (coalesce (hmap headers ''fecha (dd/mm/yy)'') (hmap headers ''fecha(dd/mm/yy)''))
              = None
          \<or> hmap headers ''enviado'' = None"
    by (simp add: resolve_def Let_def split: option.splits)
  then show ?thesis
    unfolding coalesce_None_iff hmap_None_iff unresolved_def Let_def by blast
qed

lemma readRows_Cons: "readRows (h # rest) = (h, rest)" and readRows_Nil: "readRows [] = ([], [])"
  by (simp_all add: readRows_def)

section \<open>The send loop\<close>

lemma sends_ok_props:
  "ev \<in> set (sends_ok r text nums) \<Longrightarrow> \<not> is_update ev \<and> \<not> failed_send ev \<and> effect_row ev = r"
  by (auto simp: sends_ok_def)

lemma sends_ok_snoc: "sends_ok r text (nums @ [n]) = sends_ok r text nums @ [SendMessage r (jid_of n) text True]"
  by (simp add: sends_ok_def)

lemma sends_ok_Cons: "sends_ok r text (n # nums) = SendMessage r (jid_of n) text True # sends_ok r text nums"
  by (simp add: sends_ok_def)

lemma send_dests_cases:
  "send_dests w r text nums tr = (e, tr') \<Longrightarrow>
     (e = None \<and> tr' = tr @ sends_ok r text nums)
   \<or> (\<exists>k < length nums. e = Some ChannelNotReady \<and> tr' = tr @ sends_ok r text (take k nums))
   \<or> (\<exists>k < length nums. e = Some SendError
         \<and> tr' = tr @ sends_ok r text (take k nums) @ [SendMessage r (jid_of (nums ! k)) text False])"
proof (induction nums arbitrary: tr)
  case Nil
  then show ?case by (simp add: sends_ok_def)
next
  case (Cons n nums)
  show ?case
  proof (cases "connReady w tr")
    case False
    with Cons.prems have "e = Some ChannelNotReady \<and> tr' = tr @ sends_ok r text (take 0 (n # nums))"
      by (simp add: sendText_def sends_ok_def)
    then show ?thesis by blast
  next
    case True
    show ?thesis
    proof (cases "sendMessage_ok w tr (jid_of n) text")
      case False
      with True Cons.prems have "e = Some SendError
          \<and> tr' = tr @ sends_ok r text (take 0 (n # nums)) @ [SendMessage r (jid_of ((n # nums) ! 0)) text False]"
        by (simp add: sendText_def sends_ok_def)
      then show ?thesis by blast
    next
      case ok: True
      let ?tr1 = "tr @ [SendMessage r (jid_of n) text True]"
      from True ok Cons.prems have "send_dests w r text nums ?tr1 = (e, tr')"
        by (simp add: sendText_def)
      from Cons.IH [OF this] consider
        (a) "e = None" "tr' = ?tr1 @ sends_ok r text nums"
        | (b) k where "k < length nums" "e = Some ChannelNotReady"
            "tr' = ?tr1 @ sends_ok r text (take k nums)"
        | (c) k where "k < length nums" "e = Some SendError"
            "tr' = ?tr1 @ sends_ok r text (take k nums) @ [SendMessage r (jid_of (nums ! k)) text False]"
        by blast
      then show ?thesis
      proof cases
        case a
        then show ?thesis by (simp add: sends_ok_Cons)
      next
        case b
        then have "Suc k < length (n # nums) \<and> e = Some ChannelNotReady
            \<and> tr' = tr @ sends_ok r text (take (Suc k) (n # nums))"
          by (simp add: sends_ok_Cons)
        then show ?thesis by blast
      next
        case c
        then have "Suc k < length (n # nums) \<and> e = Some SendError
            \<and> tr' = tr @ sends_ok r text (take (Suc k) (n # nums))
                    @ [SendMessage r (jid_of ((n # nums) ! Suc k)) text False]"
          by (simp add: sends_ok_Cons)
        then show ?thesis by blast
      qed
    qed
  qed
qed

lemma marked_after_sends_Nil: "marked_after_sends D []"
  by (simp add: marked_after_sends_def)

lemma marked_after_sends_append:
  assumes "marked_after_sends D tr" and "\<forall>ev \<in> set sfx. \<not> is_update ev"
  shows "marked_after_sends D (tr @ sfx)"
  unfolding marked_after_sends_def
proof (intro allI impI)
  fix pre r c v ok post
  assume eq: "tr @ sfx = pre @ UpdateCell r c v ok # post"
  then obtain us where
    "(tr = pre @ us \<and> us @ sfx = UpdateCell r c v ok # post)
     \<or> (tr @ us = pre \<and> sfx = us @ UpdateCell r c v ok # post)"
    by (auto simp: append_eq_append_conv2)
  then show "\<exists>pre' text. pre = pre' @ sends_ok r text D"
  proof
    assume a: "tr = pre @ us \<and> us @ sfx = UpdateCell r c v ok # post"
    show ?thesis
    proof (cases us)
      case Nil
      with a have "UpdateCell r c v ok \<in> set sfx" by simp
      with assms(2) show ?thesis by force
    next
      case (Cons u us')
      with a have "tr = pre @ UpdateCell r c v ok # us'" by simp
      with assms(1) show ?thesis unfolding marked_after_sends_def by blast
    qed
  next
    assume "tr @ us = pre \<and> sfx = us @ UpdateCell r c v ok # post"
    then have "UpdateCell r c v ok \<in> set sfx" by simp
    with assms(2) show ?thesis by force
  qed
qed

lemma marked_after_sends_block:
  assumes "marked_after_sends D tr"
  shows "marked_after_sends D (tr @ sends_ok r text D @ [UpdateCell r c v ok])"
proof -
  let ?X = "tr @ sends_ok r text D"
  have X: "marked_after_sends D ?X"
    using assms sends_ok_props by (intro marked_after_sends_append) auto
  have "marked_after_sends D (?X @ [UpdateCell r c v ok])"
    unfolding marked_after_sends_def
  proof (intro allI impI)
    fix pre r' c' v' ok' post
    assume eq: "?X @ [UpdateCell r c v ok] = pre @ UpdateCell r' c' v' ok' # post"
    show "\<exists>pre' text. pre = pre' @ sends_ok r' text D"
    proof (cases post rule: rev_cases)
      case Nil
      with eq have "pre = ?X \<and> r' = r" by auto
      then have "pre = tr @ sends_ok r' text D" by simp
      then show ?thesis by blast
    next
      case (snoc post' l)
      with eq have "?X = pre @ UpdateCell r' c' v' ok' # post'"
        by (metis append_Cons append_assoc butlast_snoc)
      with X show ?thesis unfolding marked_after_sends_def by blast
    qed
  qed
  then show ?thesis by simp
qed

lemma only_last:
  assumes "\<forall>x \<in> set xs. \<not> Q x" and "Q ev" and "xs @ [l] = pre @ ev # post"
  shows "post = [] \<and> pre = xs \<and> ev = l"
proof (cases post rule: rev_cases)
  case Nil
  with assms(3) show ?thesis by simp
next
  case (snoc post' z)
  with assms(3) have "xs = pre @ ev # post'"
    by (metis append_Cons append_assoc butlast_snoc)
  with assms(1,2) show ?thesis by auto
qed

lemma send_rows_skip:
  "\<not> due w cols row \<Longrightarrow>
     send_rows w cols idx (row # rows) tr sent = send_rows w cols (Suc idx) rows tr sent"
  by (auto simp: due_def split: option.splits)

lemma due_row_outcomes:
  assumes "due w cols row" and "send_rows w cols idx (row # rows) tr sent = (e, tr', sent')"
  obtains
    (marked) body where
      "send_rows w cols (Suc idx) rows
         (tr @ sends_ok (idx + 2) body (DEST_NUMBERS w)
             @ [UpdateCell (idx + 2) (iEnviado cols + 1) si True])
         (sent @ [\<lparr>s_row = idx + 2, s_Nombre = nombre_of cols row\<rparr>]) = (e, tr', sent')"
  | (write_failed) body where
      "e = Some WriteError" "sent' = sent"
      "tr' = tr @ sends_ok (idx + 2) body (DEST_NUMBERS w)
                @ [UpdateCell (idx + 2) (iEnviado cols + 1) si False]"
  | (not_ready) body k where
      "k < length (DEST_NUMBERS w)" "e = Some ChannelNotReady" "sent' = sent"
      "tr' = tr @ sends_ok (idx + 2) body (take k (DEST_NUMBERS w))"
  | (send_failed) body k where
      "k < length (DEST_NUMBERS w)" "e = Some SendError" "sent' = sent"
      "tr' = tr @ sends_ok (idx + 2) body (take k (DEST_NUMBERS w))
                @ [SendMessage (idx + 2) (jid_of (DEST_NUMBERS w ! k)) body False]"
proof -
  from assms(1) obtain fecha where f: "fecha_of w cols row = Some fecha"
    and ne: "enviado_of cols row \<noteq> si" and c: "cond (SEND_MODE w) fecha (now w)"
    by (auto simp: due_def split: option.splits)
  let ?text = "msg (nombre_of cols row) (cargo_of cols row) fecha"
  obtain e1 tr1 where sd: "send_dests w (idx + 2) ?text (DEST_NUMBERS w) tr = (e1, tr1)"
    by (cases "send_dests w (idx + 2) ?text (DEST_NUMBERS w) tr") auto
  from send_dests_cases [OF sd] consider
    (a) "e1 = None" "tr1 = tr @ sends_ok (idx + 2) ?text (DEST_NUMBERS w)"
    | (b) k where "k < length (DEST_NUMBERS w)" "e1 = Some ChannelNotReady"
        "tr1 = tr @ sends_ok (idx + 2) ?text (take k (DEST_NUMBERS w))"
    | (c) k where "k < length (DEST_NUMBERS w)" "e1 = Some SendError"
        "tr1 = tr @ sends_ok (idx + 2) ?text (take k (DEST_NUMBERS w))
                  @ [SendMessage (idx + 2) (jid_of (DEST_NUMBERS w ! k)) ?text False]"
    by blast
  then show thesis
  proof cases
    case a
    show thesis
    proof (cases "update_ok w tr1 (idx + 2) (iEnviado cols + 1) si")
      case True
      with a sd f ne c assms(2) have
        "send_rows w cols (Suc idx) rows
           (tr @ sends_ok (idx + 2) ?text (DEST_NUMBERS w)
               @ [UpdateCell (idx + 2) (iEnviado cols + 1) si True])
           (sent @ [\<lparr>s_row = idx + 2, s_Nombre = nombre_of cols row\<rparr>]) = (e, tr', sent')"
        by (simp add: updateCell_def)
      then show thesis by (rule marked)
    next
      case False
      with a sd f ne c assms(2) have "e = Some WriteError" "sent' = sent"
        "tr' = tr @ sends_ok (idx + 2) ?text (DEST_NUMBERS w)
                  @ [UpdateCell (idx + 2) (iEnviado cols + 1) si False]"
        by (auto simp: updateCell_def)
      then show thesis by (rule write_failed)
    qed
  next
    case b
    with sd f ne c assms(2) have "e = Some ChannelNotReady" "sent' = sent"
      "tr' = tr @ sends_ok (idx + 2) ?text (take k (DEST_NUMBERS w))"
      by auto
    with b(1) show thesis by (rule not_ready)
  next
    case c
    with sd f ne \<open>cond (SEND_MODE w) fecha (now w)\<close> assms(2) have "e = Some SendError" "sent' = sent"
      "tr' = tr @ sends_ok (idx + 2) ?text (take k (DEST_NUMBERS w))
                @ [SendMessage (idx + 2) (jid_of (DEST_NUMBERS w ! k)) ?text False]"
      by auto
    with c(1) show thesis by (rule send_failed)
  qed
qed

lemma send_rows_not_ready:
  assumes "\<exists>row \<in> set rows. due w cols row" and "DEST_NUMBERS w \<noteq> []" and "\<not> connReady w tr"
  shows "send_rows w cols idx rows tr sent = (Some ChannelNotReady, tr, sent)"
  using assms(1)
proof (induction rows arbitrary: idx)
  case Nil
  then show ?case by simp
next
  case (Cons row rows)
  show ?case
  proof (cases "due w cols row")
    case True
    obtain n ns where d: "DEST_NUMBERS w = n # ns"
      using assms(2) by (cases "DEST_NUMBERS w") auto
    have "send_dests w r body (DEST_NUMBERS w) tr = (Some ChannelNotReady, tr)" for r body
      using assms(3) d by (simp add: sendText_def)
    with True show ?thesis
      by (auto simp: due_def split: option.splits)
  next
    case False
    with Cons.prems have "\<exists>row \<in> set rows. due w cols row" by auto
    from Cons.IH [OF this] show ?thesis
      unfolding send_rows_skip [OF False] .
  qed
qed

lemma no_failed_vacuous:
  assumes "\<forall>x \<in> set xs. \<not> failed_send x"
  shows "\<forall>pre ev post. xs = pre @ ev # post \<and> failed_send ev \<longrightarrow>
           post = [] \<and> e = Some SendError
           \<and> (\<forall>u \<in> set pre. effect_row u \<le> effect_row ev
                 \<and> (is_update u \<longrightarrow> effect_row u < effect_row ev))"
  using assms by auto

lemma send_rows_inv:
  assumes "send_rows w cols idx rows tr sent = (e, tr', sent')"
    and "marked_after_sends (DEST_NUMBERS w) tr"
    and "\<forall>ev \<in> set tr. effect_row ev < idx + 2"
    and "\<forall>ev \<in> set tr. \<not> failed_send ev"
  shows "marked_after_sends (DEST_NUMBERS w) tr'
       \<and> (\<forall>pre ev post. tr' = pre @ ev # post \<and> failed_send ev \<longrightarrow>
             post = [] \<and> e = Some SendError
             \<and> (\<forall>u \<in> set pre. effect_row u \<le> effect_row ev
                   \<and> (is_update u \<longrightarrow> effect_row u < effect_row ev)))"
  using assms
proof (induction rows arbitrary: idx tr sent)
  case Nil
  then have "tr' = tr" by simp
  with Nil.prems have "marked_after_sends (DEST_NUMBERS w) tr'"
    and "\<forall>x \<in> set tr'. \<not> failed_send x" by simp_all
  from this(1) no_failed_vacuous [OF this(2), of e] show ?case by (rule conjI)
next
  case (Cons row rows)
  let ?D = "DEST_NUMBERS w"
  show ?case
  proof (cases "due w cols row")
    case False
    have "send_rows w cols (Suc idx) rows tr sent = (e, tr', sent')"
      using Cons.prems(1) unfolding send_rows_skip [OF False] .
    moreover have "\<forall>ev \<in> set tr. effect_row ev < Suc idx + 2"
      using Cons.prems(3) by auto
    ultimately show ?thesis
      using Cons.IH Cons.prems(2,4) by blast
  next
    case True
    from True Cons.prems(1) show ?thesis
    proof (cases rule: due_row_outcomes)
      case (marked body)
      let ?tr2 = "tr @ sends_ok (idx + 2) body ?D @ [UpdateCell (idx + 2) (iEnviado cols + 1) si True]"
      have 1: "marked_after_sends ?D ?tr2"
        using Cons.prems(2) by (rule marked_after_sends_block)
      have 2: "\<forall>ev \<in> set ?tr2. effect_row ev < Suc idx + 2"
        using Cons.prems(3) sends_ok_props [of _ "idx + 2" body ?D] by auto
      have 3: "\<forall>ev \<in> set ?tr2. \<not> failed_send ev"
        using Cons.prems(4) sends_ok_props [of _ "idx + 2" body ?D] by auto
      from Cons.IH [OF marked 1 2 3] show ?thesis .
    next
      case (write_failed body)
      have 1: "marked_after_sends ?D tr'"
        unfolding write_failed(3) using Cons.prems(2) by (rule marked_after_sends_block)
      have "\<forall>ev \<in> set tr'. \<not> failed_send ev"
        unfolding write_failed(3)
        using Cons.prems(4) sends_ok_props [of _ "idx + 2" body ?D] by auto
      from 1 no_failed_vacuous [OF this, of e] show ?thesis by (rule conjI)
    next
      case (not_ready body k)
      have 1: "marked_after_sends ?D tr'"
        unfolding not_ready(4) using Cons.prems(2) sends_ok_props
        by (intro marked_after_sends_append) auto
      have "\<forall>ev \<in> set tr'. \<not> failed_send ev"
        unfolding not_ready(4)
        using Cons.prems(4) sends_ok_props [of _ "idx + 2" body "take k ?D"] by auto
      from 1 no_failed_vacuous [OF this, of e] show ?thesis by (rule conjI)
    next
      case (send_failed body k)
      let ?xs = "tr @ sends_ok (idx + 2) body (take k ?D)"
      let ?l = "SendMessage (idx + 2) (jid_of (?D ! k)) body False"
      have tr': "tr' = ?xs @ [?l]"
        using send_failed(4) by simp
      have "\<forall>ev \<in> set (sends_ok (idx + 2) body (take k ?D) @ [?l]). \<not> is_update ev"
        using sends_ok_props [of _ "idx + 2" body "take k ?D"] by auto
      with Cons.prems(2) have "marked_after_sends ?D (tr @ sends_ok (idx + 2) body (take k ?D) @ [?l])"
        by (rule marked_after_sends_append)
      then have 1: "marked_after_sends ?D tr'"
        using send_failed(4) by simp
      have nf: "\<forall>x \<in> set ?xs. \<not> failed_send x"
        using Cons.prems(4) sends_ok_props [of _ "idx + 2" body "take k ?D"] by auto
      have 2: "post = [] \<and> e = Some SendError
             \<and> (\<forall>u \<in> set pre. effect_row u \<le> effect_row ev
                   \<and> (is_update u \<longrightarrow> effect_row u < effect_row ev))"
        if "tr' = pre @ ev # post \<and> failed_send ev" for pre ev post
      proof -
        from that tr' have eq: "?xs @ [?l] = pre @ ev # post" and q: "failed_send ev" by simp_all
        from only_last [of ?xs failed_send, OF nf q eq]
        have p: "post = []" "pre = ?xs" "ev = ?l" by simp_all
        have "effect_row u \<le> idx + 2 \<and> (is_update u \<longrightarrow> effect_row u < idx + 2)"
          if "u \<in> set ?xs" for u
          using that Cons.prems(3) sends_ok_props [of u "idx + 2" body "take k ?D"] by auto
        with p send_failed(2) show ?thesis by simp
      qed
      from 1 2 show ?thesis by blast
    qed
  qed
qed

lemma pending_rows_rows:
  "p \<in> set (pending_rows w cols idx rows) \<Longrightarrow>
     \<exists>i < length rows. p_row p = idx + i + 2 \<and> due w cols (rows ! i)"
proof (induction rows arbitrary: idx)
  case Nil
  then show ?case by simp
next
  case (Cons row rows)
  have later: "\<exists>i < length (row # rows). p_row p = idx + i + 2 \<and> due w cols ((row # rows) ! i)"
    if "p \<in> set (pending_rows w cols (Suc idx) rows)"
  proof -
    from Cons.IH [OF that] obtain i where
      "i < length rows" "p_row p = Suc idx + i + 2" "due w cols (rows ! i)" by blast
    then have "Suc i < length (row # rows) \<and> p_row p = idx + Suc i + 2
        \<and> due w cols ((row # rows) ! Suc i)" by simp
    then show ?thesis by blast
  qed
  show ?case
  proof (cases "due w cols row")
    case False
    then have "pending_rows w cols idx (row # rows) = pending_rows w cols (Suc idx) rows"
      by (auto simp: due_def split: option.splits)
    with Cons.prems later show ?thesis by simp
  next
    case True
    then obtain e where
      "pending_rows w cols idx (row # rows) = e # pending_rows w cols (Suc idx) rows"
      "p_row e = idx + 2"
      by (auto simp: due_def split: option.splits)
    with Cons.prems have "p_row p = idx + 2 \<or> p \<in> set (pending_rows w cols (Suc idx) rows)"
      by auto
    then show ?thesis
    proof
      assume "p_row p = idx + 2"
      with True have "0 < length (row # rows) \<and> p_row p = idx + 0 + 2
          \<and> due w cols ((row # rows) ! 0)" by simp
      then show ?thesis by blast
    qed (rule later)
  qed
qed

lemma send_rows_rows:
  assumes "send_rows w cols idx rows tr sent = (e, tr', sent')"
  shows "\<exists>evs new. tr' = tr @ evs \<and> sent' = sent @ new
       \<and> (\<forall>ev \<in> set evs. \<exists>i < length rows. effect_row ev = idx + i + 2 \<and> due w cols (rows ! i))
       \<and> (\<forall>s \<in> set new. \<exists>i < length rows. s_row s = idx + i + 2 \<and> due w cols (rows ! i))"
  using assms
proof (induction rows arbitrary: idx tr sent)
  case Nil
  then show ?case by simp
next
  case (Cons row rows)
  let ?D = "DEST_NUMBERS w"
  let ?here = "\<lambda>n. \<exists>i < length (row # rows). n = idx + i + 2 \<and> due w cols ((row # rows) ! i)"
  have shift: "?here n" if "\<exists>i < length rows. n = Suc idx + i + 2 \<and> due w cols (rows ! i)" for n
  proof -
    from that obtain i where "i < length rows" "n = Suc idx + i + 2" "due w cols (rows ! i)"
      by blast
    then have "Suc i < length (row # rows) \<and> n = idx + Suc i + 2
        \<and> due w cols ((row # rows) ! Suc i)" by simp
    then show ?thesis by blast
  qed
  show ?case
  proof (cases "due w cols row")
    case False
    have "send_rows w cols (Suc idx) rows tr sent = (e, tr', sent')"
      using Cons.prems unfolding send_rows_skip [OF False] .
    from Cons.IH [OF this] obtain evs new where
      "tr' = tr @ evs" "sent' = sent @ new"
      "\<forall>ev \<in> set evs. \<exists>i < length rows. effect_row ev = Suc idx + i + 2 \<and> due w cols (rows ! i)"
      "\<forall>s \<in> set new. \<exists>i < length rows. s_row s = Suc idx + i + 2 \<and> due w cols (rows ! i)"
      by blast
    with shift have "tr' = tr @ evs \<and> sent' = sent @ new
       \<and> (\<forall>ev \<in> set evs. ?here (effect_row ev)) \<and> (\<forall>s \<in> set new. ?here (s_row s))"
      by blast
    then show ?thesis by blast
  next
    case True
    then have first: "?here (idx + 2)"
      by (intro exI [of _ 0]) simp
    have aborted: ?thesis if "tr' = tr @ evs" "sent' = sent" "\<forall>ev \<in> set evs. effect_row ev = idx + 2"
      for evs
    proof -
      from that first have "tr' = tr @ evs \<and> sent' = sent @ []
        \<and> (\<forall>ev \<in> set evs. ?here (effect_row ev))
        \<and> (\<forall>s \<in> set ([] :: sent_entry list). ?here (s_row s))"
        by simp
      then show ?thesis by blast
    qed
    from True Cons.prems show ?thesis
    proof (cases rule: due_row_outcomes)
      case (marked body)
      let ?blk = "sends_ok (idx + 2) body ?D @ [UpdateCell (idx + 2) (iEnviado cols + 1) si True]"
      let ?entry = "\<lparr>s_row = idx + 2, s_Nombre = nombre_of cols row\<rparr>"
      have "send_rows w cols (Suc idx) rows (tr @ ?blk) (sent @ [?entry]) = (e, tr', sent')"
        using marked by simp
      from Cons.IH [OF this] obtain evs new where r:
        "tr' = (tr @ ?blk) @ evs" "sent' = (sent @ [?entry]) @ new"
        "\<forall>ev \<in> set evs. \<exists>i < length rows. effect_row ev = Suc idx + i + 2 \<and> due w cols (rows ! i)"
        "\<forall>s \<in> set new. \<exists>i < length rows. s_row s = Suc idx + i + 2 \<and> due w cols (rows ! i)"
        by blast
      have "\<forall>ev \<in> set ?blk. effect_row ev = idx + 2"
        using sends_ok_props [of _ "idx + 2" body ?D] by auto
      with r shift first have "tr' = tr @ (?blk @ evs) \<and> sent' = sent @ (?entry # new)
         \<and> (\<forall>ev \<in> set (?blk @ evs). ?here (effect_row ev))
         \<and> (\<forall>s \<in> set (?entry # new). ?here (s_row s))"
        by auto
      then show ?thesis by blast
    next
      case (write_failed body)
      show ?thesis
        using write_failed(2,3) sends_ok_props [of _ "idx + 2" body ?D]
        by (intro aborted [of "sends_ok (idx + 2) body ?D @ [UpdateCell (idx + 2) (iEnviado cols + 1) si False]"]) auto
    next
      case (not_ready body k)
      show ?thesis
        using not_ready(3,4) sends_ok_props [of _ "idx + 2" body "take k ?D"]
        by (intro aborted [of "sends_ok (idx + 2) body (take k ?D)"]) auto
    next
      case (send_failed body k)
      show ?thesis
        using send_failed(3,4) sends_ok_props [of _ "idx + 2" body "take k ?D"]
        by (intro aborted [of "sends_ok (idx + 2) body (take k ?D)
              @ [SendMessage (idx + 2) (jid_of (?D ! k)) body False]"]) auto
    qed
  qed
qed

section \<open>The scenarios, evaluated\<close>

lemma parse_row_A: "parseDDMMYY dayjs_example (Some ''01/06/25'') = Some (ymd 2025 6 1)"
proof -
  have "ymd_text ''01'' ''06'' ''25'' = ''2025-06-01''"
    by code_simp
  then show ?thesis
    using dayjs_example_2025_06_01 by (simp add: parseDDMMYY_def trim_def is_ws_def)
qed

lemma parse_row_Luis: "parseDDMMYY dayjs_example (Some ''1/6/2025'') = Some (ymd 2025 6 1)"
proof -
  have "ymd_text ''1'' ''6'' ''2025'' = ''2025-6-1''"
    by code_simp
  then show ?thesis
    using dayjs_example_2025_6_1 by (simp add: parseDDMMYY_def trim_def is_ws_def)
qed

lemma cells_A:
  "nombre_of cols_A row_A = ''Ana''" "cargo_of cols_A row_A = ''Jefa''"
  "enviado_of cols_A row_A = ''no''" "cell row_A (iFecha cols_A) = Some ''01/06/25''"
  "nombre_of cols_A row_Luis = ''Luis''"
  "cargo_of cols_A row_Luis = ''Socio''"
  "enviado_of cols_A row_Luis = []"
  "cell row_Luis (iFecha cols_A) = Some ''1/6/2025''"
  "enviado_of cols_A row_sent = si"
  "trim (or_default (cell row_sent (iEnviado cols_A)) []) = [CHR ''S'', CHR 0xCD]"
  "iEnviado cols_A + 1 = 4"
  by code_simp+

lemma digit_chars:
  "char_of (48 :: nat) = CHR ''0''" "char_of (49 :: nat) = CHR ''1''"
  "char_of (50 :: nat) = CHR ''2''" "char_of (51 :: nat) = CHR ''3''"
  "char_of (52 :: nat) = CHR ''4''" "char_of (53 :: nat) = CHR ''5''"
  "char_of (54 :: nat) = CHR ''6''" "char_of (55 :: nat) = CHR ''7''"
  "char_of (56 :: nat) = CHR ''8''" "char_of (57 :: nat) = CHR ''9''"
  by code_simp+

lemma formats_A:
  "format_DD_MM_YYYY (ymd 2025 6 1) = ''01/06/2025''"
  "format_YYYY_MM_DD \<lparr>c_year = 2025, c_month = 6, c_day = 1, c_ms = 36000000\<rparr> = ''2025-06-01''"
  by (simp_all add: format_DD_MM_YYYY_def format_YYYY_MM_DD_def ymd_def padStart_def
      number_toString_def dec.simps digit_chars)

lemma cond_A:
  "cond ''today'' (ymd 2025 6 1) \<lparr>c_year = 2025, c_month = 6, c_day = 1, c_ms = 36000000\<rparr>"
  by (simp add: cond_def isSame_day_def valueOf_less_def startOf_day_def endOf_day_def ymd_def)

lemma jids_A:
  "jid_of ''5215500000001'' = ''5215500000001@s.whatsapp.net''"
  "jid_of ''5215500000002'' = ''5215500000002@s.whatsapp.net''"
  by code_simp+

lemma settings_A:
  "DEST_NUMBERS world_A = [''5215500000001'']" "SEND_MODE world_A = ''today''"
  "DEST_NUMBERS world_two = [''5215500000001'', ''5215500000002'']"
  by (simp_all add: DEST_NUMBERS_def SEND_MODE_def world_A_def world_two_def or_default_def
      trim_def is_ws_def toLowerCase_def lower_char_def)

lemma unresolved_no_cargo: "unresolved [''Nombre'', ''Fecha'', ''Enviado'']"
  by code_simp

lemma resolve_A: "resolve headers_A = Some cols_A"
  by code_simp

lemma si_variants_lower: "t \<in> si_variants \<Longrightarrow> toLowerCase t = si"
proof -
  have "lower_char CHR ''S'' = CHR ''s''" "lower_char (CHR 0xCD) = CHR 0xED"
    "lower_char CHR ''s'' = CHR ''s''" "lower_char (CHR 0xED) = CHR 0xED"
    by code_simp+
  then show "t \<in> si_variants \<Longrightarrow> toLowerCase t = si"
    by (auto simp: si_variants_def toLowerCase_def si_def)
qed

lemma like_A:
  assumes "dayjs w = dayjs_example"
    and "now w = \<lparr>c_year = 2025, c_month = 6, c_day = 1, c_ms = 36000000\<rparr>"
    and "env_SEND_MODE w = None"
  shows "fecha_of w cols_A row_A = Some june_1"
    and "fecha_of w cols_A row_Luis = Some june_1"
    and "fecha_of w cols_A row_sent = Some june_1"
    and "SEND_MODE w = ''today''"
    and "cond ''today'' june_1 (now w)"
    and "format_YYYY_MM_DD (now w) = ''2025-06-01''"
proof -
  show "fecha_of w cols_A row_A = Some june_1"
    using assms(1) parse_row_A by (simp add: fecha_of_def cells_A(4) june_1_def)
  show "fecha_of w cols_A row_Luis = Some june_1"
    using assms(1) parse_row_Luis by (simp add: fecha_of_def cells_A(8) june_1_def)
  have "cell row_sent (iFecha cols_A) = Some ''01/06/25''"
    by code_simp
  then show "fecha_of w cols_A row_sent = Some june_1"
    using assms(1) parse_row_A by (simp add: fecha_of_def june_1_def)
  show m: "SEND_MODE w = ''today''"
    using assms(3) by (simp add: SEND_MODE_def or_default_def toLowerCase_def lower_char_def)
  show "cond ''today'' june_1 (now w)"
    using cond_A by (simp only: assms(2) june_1_def)
  show "format_YYYY_MM_DD (now w) = ''2025-06-01''"
    using formats_A(2) by (simp only: assms(2))
qed

lemma worlds_like_A:
  "dayjs world_A = dayjs_example" "now world_A = \<lparr>c_year = 2025, c_month = 6, c_day = 1, c_ms = 36000000\<rparr>"
  "env_SEND_MODE world_A = None"
  "dayjs world_B = dayjs_example" "now world_B = \<lparr>c_year = 2025, c_month = 6, c_day = 1, c_ms = 36000000\<rparr>"
  "env_SEND_MODE world_B = None"
  "dayjs world_two = dayjs_example" "now world_two = \<lparr>c_year = 2025, c_month = 6, c_day = 1, c_ms = 36000000\<rparr>"
  "env_SEND_MODE world_two = None"
  "dayjs world_not_ready = dayjs_example"
  "now world_not_ready = \<lparr>c_year = 2025, c_month = 6, c_day = 1, c_ms = 36000000\<rparr>"
  "env_SEND_MODE world_not_ready = None"
  "dayjs world_sent = dayjs_example" "now world_sent = \<lparr>c_year = 2025, c_month = 6, c_day = 1, c_ms = 36000000\<rparr>"
  "env_SEND_MODE world_sent = None"
  "dayjs world_not_ready_no_dest = dayjs_example"
  "now world_not_ready_no_dest = \<lparr>c_year = 2025, c_month = 6, c_day = 1, c_ms = 36000000\<rparr>"
  "env_SEND_MODE world_not_ready_no_dest = None"
  by (simp_all add: world_A_def world_B_def world_two_def world_not_ready_def world_sent_def
      world_not_ready_no_dest_def)

lemma worlds_DEST:
  "DEST_NUMBERS world_A = [''5215500000001'']"
  "DEST_NUMBERS world_B = [''5215500000001'']"
  "DEST_NUMBERS world_not_ready = [''5215500000001'']"
  "DEST_NUMBERS world_sent = [''5215500000001'']"
  "DEST_NUMBERS world_no_cargo = [''5215500000001'']"
  "DEST_NUMBERS world_no_header = [''5215500000001'']"
  "DEST_NUMBERS world_empty = [''5215500000001'']"
  "DEST_NUMBERS world_two = [''5215500000001'', ''5215500000002'']"
  "DEST_NUMBERS world_not_ready_no_dest = []"
  "DEST_NUMBERS world_empty_no_dest = []"
  by (simp_all add: DEST_NUMBERS_def world_A_def world_B_def world_two_def world_not_ready_def
      world_sent_def world_no_cargo_def world_no_header_def world_empty_def
      world_not_ready_no_dest_def world_empty_no_dest_def
      or_default_def trim_def is_ws_def)

lemma worlds_sheet:
  "sheet_values world_A = Some [headers_A, row_A]"
  "sheet_values world_B = Some [headers_A, row_A]"
  "sheet_values world_not_ready = Some [headers_A, row_A]"
  "sheet_values world_two = Some [headers_A, row_A, row_Luis]"
  "sheet_values world_sent = Some [headers_A, row_sent]"
  "sheet_values world_no_cargo = Some [[''Nombre'', ''Fecha'', ''Enviado''], [''Ana'', ''01/06/25'', ''no'']]"
  "sheet_values world_no_header = Some [[], row_A]"
  "sheet_values world_empty = Some []"
  "sheet_values world_not_ready_no_dest = Some [headers_A, row_A]"
  "sheet_values world_empty_no_dest = Some []"
  by (simp_all add: world_A_def world_B_def world_two_def world_not_ready_def
      world_sent_def world_no_cargo_def world_no_header_def world_empty_def
      world_not_ready_no_dest_def world_empty_no_dest_def)

lemma worlds_gateways:
  "connReady world_A tr" "sendMessage_ok world_A tr jid body" "update_ok world_A tr r c v"
  "connReady world_B tr" "\<not> sendMessage_ok world_B tr jid body"
  "connReady world_two tr" "\<not> sendMessage_ok world_two tr jid body"
  "\<not> connReady world_not_ready tr"
  "\<not> connReady world_not_ready_no_dest tr"
  by (simp_all add: world_A_def world_B_def world_two_def world_not_ready_def
      world_not_ready_no_dest_def)

lemma si_not_no: "''no'' \<noteq> si" "[] \<noteq> si"
  by (simp_all add: si_def)

lemma format_june_1: "format_DD_MM_YYYY june_1 = ''01/06/2025''"
  using formats_A(1) by (simp only: june_1_def)

lemma iEnviado_A: "iEnviado cols_A = 3"
  by (simp add: cols_A_def)

lemma headers_A_not_Nil: "headers_A \<noteq> []"
  by (simp add: headers_A_def)

lemma send_pending_A:
  "send_pending world_A =
     (SentJson ''2025-06-01'' ''today'' [\<lparr>s_row = 2, s_Nombre = ''Ana''\<rparr>] 1,
      [SendMessage 2 ''5215500000001@s.whatsapp.net'' msg_A True, UpdateCell 2 4 si True])"
  by (simp add: send_pending_def worlds_DEST worlds_sheet readRows_def resolve_A
      like_A [OF worlds_like_A(1-3)] cells_A si_not_no sendText_def updateCell_def
      worlds_gateways jids_A msg_def msg_A_def format_june_1 iEnviado_A)

lemma send_pending_B:
  "send_pending world_B =
     (Status500 SendError, [SendMessage 2 ''5215500000001@s.whatsapp.net'' msg_A False])"
  by (simp add: send_pending_def worlds_DEST worlds_sheet readRows_def resolve_A
      like_A [OF worlds_like_A(4-6)] cells_A si_not_no sendText_def updateCell_def
      worlds_gateways jids_A msg_def msg_A_def format_june_1 iEnviado_A)

lemma send_pending_two:
  "send_pending world_two =
     (Status500 SendError, [SendMessage 2 ''5215500000001@s.whatsapp.net'' msg_A False])"
  by (simp add: send_pending_def worlds_DEST worlds_sheet readRows_def resolve_A
      like_A [OF worlds_like_A(7-9)] cells_A si_not_no sendText_def updateCell_def
      worlds_gateways jids_A msg_def msg_A_def format_june_1 iEnviado_A)

lemma preview_two:
  "preview world_two =
     PreviewJson ''2025-06-01'' ''today''
       [\<lparr>p_row = 2, p_Nombre = ''Ana'', p_Cargo = ''Jefa'', p_Fecha = ''01/06/2025''\<rparr>,
        \<lparr>p_row = 3, p_Nombre = ''Luis'', p_Cargo = ''Socio'', p_Fecha = ''01/06/2025''\<rparr>]"
  by (simp add: preview_def worlds_sheet readRows_def resolve_A headers_A_not_Nil
      like_A [OF worlds_like_A(7-9)] cells_A si_not_no format_june_1)

lemma preview_not_ready:
  "preview world_not_ready =
     PreviewJson ''2025-06-01'' ''today''
       [\<lparr>p_row = 2, p_Nombre = ''Ana'', p_Cargo = ''Jefa'', p_Fecha = ''01/06/2025''\<rparr>]"
  by (simp add: preview_def worlds_sheet readRows_def resolve_A headers_A_not_Nil
      like_A [OF worlds_like_A(10-12)] cells_A si_not_no format_june_1)

lemma preview_not_ready_no_dest:
  "preview world_not_ready_no_dest =
     PreviewJson ''2025-06-01'' ''today''
       [\<lparr>p_row = 2, p_Nombre = ''Ana'', p_Cargo = ''Jefa'', p_Fecha = ''01/06/2025''\<rparr>]"
  by (simp add: preview_def worlds_sheet readRows_def resolve_A headers_A_not_Nil
      like_A [OF worlds_like_A(16-18)] cells_A si_not_no format_june_1)

lemma runs_sent:
  "preview world_sent = PreviewJson ''2025-06-01'' ''today'' []"
  "send_pending world_sent = (SentJson ''2025-06-01'' ''today'' [] 0, [])"
  by (simp_all add: preview_def send_pending_def worlds_DEST worlds_sheet readRows_def resolve_A
      headers_A_not_Nil like_A [OF worlds_like_A(13-15)] cells_A)

section \<open>The two routes\<close>

lemma send_pending_cases:
  obtains (early) "snd (send_pending w) = []"
      "\<forall>t m ss n. fst (send_pending w) \<noteq> SentJson t m ss n"
      "fst (send_pending w) \<noteq> Status500 SendError"
  | (loop) vals headers rows cols e tr sent where
      "DEST_NUMBERS w \<noteq> []" "sheet_values w = Some vals" "readRows vals = (headers, rows)"
      "resolve headers = Some cols" "send_rows w cols 0 rows [] [] = (e, tr, sent)"
      "snd (send_pending w) = tr"
      "fst (send_pending w) =
         (case e of Some err \<Rightarrow> Status500 err
          | None \<Rightarrow> SentJson (format_YYYY_MM_DD (now w)) (SEND_MODE w) sent (length sent))"
proof (cases "DEST_NUMBERS w = []")
  case True
  then show ?thesis by (intro early) (simp_all add: send_pending_def)
next
  case d: False
  show ?thesis
  proof (cases "sheet_values w")
    case None
    with d show ?thesis by (intro early) (simp_all add: send_pending_def)
  next
    case (Some vals)
    obtain headers rows where rr: "readRows vals = (headers, rows)"
      by (cases "readRows vals") auto
    show ?thesis
    proof (cases "resolve headers")
      case None
      with d Some rr show ?thesis by (intro early) (simp_all add: send_pending_def)
    next
      case cols: (Some cols)
      obtain e tr sent where sr: "send_rows w cols 0 rows [] [] = (e, tr, sent)"
        by (cases "send_rows w cols 0 rows [] []") auto
      have "snd (send_pending w) = tr"
        and "fst (send_pending w) =
         (case e of Some err \<Rightarrow> Status500 err
          | None \<Rightarrow> SentJson (format_YYYY_MM_DD (now w)) (SEND_MODE w) sent (length sent))"
        using d Some rr cols sr by (auto simp: send_pending_def split: option.splits)
      with d Some rr cols sr show ?thesis by (rule loop)
    qed
  qed
qed

lemma send_pending_inv:
  "marked_after_sends (DEST_NUMBERS w) (snd (send_pending w))
   \<and> (\<forall>pre ev post. snd (send_pending w) = pre @ ev # post \<and> failed_send ev \<longrightarrow>
         post = [] \<and> fst (send_pending w) = Status500 SendError
         \<and> (\<forall>u \<in> set pre. effect_row u \<le> effect_row ev
               \<and> (is_update u \<longrightarrow> effect_row u < effect_row ev)))"
proof (cases w rule: send_pending_cases)
  case early
  then show ?thesis by (simp add: marked_after_sends_Nil)
next
  case (loop vals headers rows cols e tr sent)
  have "marked_after_sends (DEST_NUMBERS w) tr
       \<and> (\<forall>pre ev post. tr = pre @ ev # post \<and> failed_send ev \<longrightarrow>
             post = [] \<and> e = Some SendError
             \<and> (\<forall>u \<in> set pre. effect_row u \<le> effect_row ev
                   \<and> (is_update u \<longrightarrow> effect_row u < effect_row ev)))"
    using loop(5) by (rule send_rows_inv) (simp_all add: marked_after_sends_Nil)
  moreover have "fst (send_pending w) = Status500 SendError" if "e = Some SendError"
    using that loop(7) by simp
  ultimately show ?thesis
    unfolding loop(6) by blast
qed

lemma failed_send_not_update: "failed_send ev \<Longrightarrow> \<not> is_update ev"
  by (cases ev) simp_all

lemma preview_JsonD:
  assumes "preview w = PreviewJson t m ps"
  obtains vals headers rows cols where
    "sheet_values w = Some vals" "readRows vals = (headers, rows)" "headers \<noteq> []"
    "resolve headers = Some cols" "ps = pending_rows w cols 0 rows"
proof -
  from assms obtain vals where v: "sheet_values w = Some vals"
    by (cases "sheet_values w") (auto simp: preview_def)
  obtain headers rows where rr: "readRows vals = (headers, rows)"
    by (cases "readRows vals") auto
  from assms v rr have h: "headers \<noteq> []"
    by (auto simp: preview_def split: if_splits)
  from assms v rr h obtain cols where c: "resolve headers = Some cols"
    by (cases "resolve headers") (auto simp: preview_def)
  from assms v rr h c have "ps = pending_rows w cols 0 rows"
    by (simp add: preview_def)
  with v rr h c show thesis by (rule that)
qed

section \<open>Sending and marking\<close>

text \<open>
  C1. In one pass of /send_pending every write of the sent marker comes right after one
  successful send of that row's reminder to each configured address, in order; and when a send
  made for a row fails, no write for that row occurs anywhere in the pass. The calls of a pass
  are the second component of \<open>send_pending\<close>.
\<close>

theorem marked_only_after_all_sends:
  "(\<forall>pre r c v ok post. snd (send_pending w) = pre @ UpdateCell r c v ok # post \<longrightarrow>
      (\<exists>pre' body. pre = pre' @ sends_ok r body (DEST_NUMBERS w)) \<and> DEST_NUMBERS w \<noteq> [])
   \<and> (\<forall>ev \<in> set (snd (send_pending w)). failed_send ev \<longrightarrow>
        (\<forall>u \<in> set (snd (send_pending w)). is_update u \<longrightarrow> effect_row u \<noteq> effect_row ev))"
proof -
  let ?tr = "snd (send_pending w)"
  note inv = send_pending_inv [of w]
  have a: "(\<exists>pre' body. pre = pre' @ sends_ok r body (DEST_NUMBERS w)) \<and> DEST_NUMBERS w \<noteq> []"
    if eq: "?tr = pre @ UpdateCell r c v ok # post" for pre r c v ok post
  proof -
    from inv eq have "\<exists>pre' body. pre = pre' @ sends_ok r body (DEST_NUMBERS w)"
      unfolding marked_after_sends_def by blast
    moreover have "DEST_NUMBERS w \<noteq> []"
    proof
      assume "DEST_NUMBERS w = []"
      then have "?tr = []" by (simp add: send_pending_def)
      with eq show False by simp
    qed
    ultimately show ?thesis by blast
  qed
  have b: "effect_row u \<noteq> effect_row ev"
    if ev: "ev \<in> set ?tr" "failed_send ev" and u: "u \<in> set ?tr" "is_update u" for ev u
  proof -
    from ev(1) obtain pre post where eq: "?tr = pre @ ev # post"
      by (auto dest: split_list)
    with inv ev(2) have p: "post = []"
      and lt: "\<forall>x \<in> set pre. is_update x \<longrightarrow> effect_row x < effect_row ev"
      by blast+
    from u(2) ev(2) have "u \<noteq> ev"
      using failed_send_not_update by blast
    with u(1) eq p have "u \<in> set pre" by auto
    with lt u(2) show ?thesis by auto
  qed
  from a b show ?thesis by blast
qed

text \<open>
  Scenarios A and B of the spec: with gateways that succeed the only write follows the only
  send; when the send fails the pass makes no write at all.
\<close>

theorem marked_only_after_all_sends_witness:
  "snd (send_pending world_A)
     = [SendMessage 2 ''5215500000001@s.whatsapp.net'' msg_A True] @ UpdateCell 2 4 si True # []
   \<and> (\<exists>pre' body. [SendMessage 2 ''5215500000001@s.whatsapp.net'' msg_A True]
          = pre' @ sends_ok 2 body (DEST_NUMBERS world_A))
   \<and> SendMessage 2 ''5215500000001@s.whatsapp.net'' msg_A False \<in> set (snd (send_pending world_B))
   \<and> failed_send (SendMessage 2 ''5215500000001@s.whatsapp.net'' msg_A False)
   \<and> \<not> (\<exists>u \<in> set (snd (send_pending world_B)). is_update u \<and> effect_row u = 2)
   \<and> filter is_update (snd (send_pending world_B)) = []"
proof -
  let ?ok = "SendMessage 2 ''5215500000001@s.whatsapp.net'' msg_A True"
  let ?ko = "SendMessage 2 ''5215500000001@s.whatsapp.net'' msg_A False"
  have a: "snd (send_pending world_A) = [?ok] @ UpdateCell 2 4 si True # []"
    by (simp add: send_pending_A)
  have b: "?ko \<in> set (snd (send_pending world_B))" and c: "failed_send ?ko"
    and d: "filter is_update (snd (send_pending world_B)) = []"
    by (simp_all add: send_pending_B)
  from marked_only_after_all_sends [of world_A, THEN conjunct1, rule_format, OF a]
  have 1: "\<exists>pre' body. [?ok] = pre' @ sends_ok 2 body (DEST_NUMBERS world_A)"
    by (rule conjunct1)
  have 2: "\<not> (\<exists>u \<in> set (snd (send_pending world_B)). is_update u \<and> effect_row u = 2)"
    using marked_only_after_all_sends [of world_B, THEN conjunct2, rule_format, OF b c]
    by auto
  from a 1 b c 2 d show ?thesis by blast
qed

text \<open>
  The counterexample to C2 as stated: two destinations and two due records, every send
  failing. The pass makes one call, the failed send to the first address of the first record,
  and answers with the error alone.
\<close>

theorem send_failure_counterexample:
  "DEST_NUMBERS world_two = [''5215500000001'', ''5215500000002'']
   \<and> preview world_two =
       PreviewJson ''2025-06-01'' ''today''
         [\<lparr>p_row = 2, p_Nombre = ''Ana'', p_Cargo = ''Jefa'', p_Fecha = ''01/06/2025''\<rparr>,
          \<lparr>p_row = 3, p_Nombre = ''Luis'', p_Cargo = ''Socio'', p_Fecha = ''01/06/2025''\<rparr>]
   \<and> send_pending world_two =
       (Status500 SendError, [SendMessage 2 ''5215500000001@s.whatsapp.net'' msg_A False])"
  using worlds_DEST(8) preview_two send_pending_two by simp

text \<open>
  C2, as the code has it. A failed send ends the pass at once: it is the last gateway call, so
  no further address and no later record is tried and no cell of that record is written; the
  calls before it belong to that record or to earlier ones, and the response is the error with
  status 500, without the list of records already sent.
\<close>

theorem send_failure_aborts:
  assumes "snd (send_pending w) = pre @ SendMessage r jid body False # post"
  shows "post = [] \<and> fst (send_pending w) = Status500 SendError
       \<and> (\<forall>u \<in> set pre. effect_row u \<le> r \<and> (is_update u \<longrightarrow> effect_row u < r))"
proof -
  have "failed_send (SendMessage r jid body False)" by simp
  with send_pending_inv [of w] assms
  have "post = [] \<and> fst (send_pending w) = Status500 SendError
       \<and> (\<forall>u \<in> set pre. effect_row u \<le> effect_row (SendMessage r jid body False)
             \<and> (is_update u \<longrightarrow> effect_row u < effect_row (SendMessage r jid body False)))"
    by blast
  then show ?thesis by simp
qed

text \<open>The same run, through the theorem.\<close>

theorem send_failure_aborts_witness:
  "snd (send_pending world_two)
     = [] @ SendMessage 2 ''5215500000001@s.whatsapp.net'' msg_A False # []
   \<and> fst (send_pending world_two) = Status500 SendError"
proof -
  have a: "snd (send_pending world_two)
     = [] @ SendMessage 2 ''5215500000001@s.whatsapp.net'' msg_A False # []"
    by (simp add: send_pending_two)
  from send_failure_aborts [OF a] a show ?thesis by blast
qed

text \<open>
  C6. A row whose date does not parse, or whose normalized sent flag is the marker, is in
  neither route's result and causes no gateway call: its row number occurs in no entry of
  /preview, in no call of /send_pending and in no entry of the sent list. The flag is
  normalized by trimming and lower-casing, so the marker in any letter case counts.
\<close>

theorem excluded_rows:
  assumes "sheet_values w = Some (headers # rows)" and "resolve headers = Some cols"
    and "i < length rows"
    and "fecha_of w cols (rows ! i) = None \<or> enviado_of cols (rows ! i) = si"
  shows "(\<exists>ps. preview w = PreviewJson (format_YYYY_MM_DD (now w)) (SEND_MODE w) ps
            \<and> (\<forall>p \<in> set ps. p_row p \<noteq> i + 2))
       \<and> (\<forall>ev \<in> set (snd (send_pending w)). effect_row ev \<noteq> i + 2)
       \<and> (\<forall>t m ss n. fst (send_pending w) = SentJson t m ss n
             \<longrightarrow> (\<forall>s \<in> set ss. s_row s \<noteq> i + 2))
       \<and> (\<forall>row. trim (or_default (cell row (iEnviado cols)) []) \<in> si_variants
             \<longrightarrow> enviado_of cols row = si)"
proof -
  have nd: "\<not> due w cols (rows ! i)"
    using assms(4) by (auto simp: due_def split: option.splits)
  have other: "n \<noteq> i + 2" if "\<exists>j < length rows. n = 0 + j + 2 \<and> due w cols (rows ! j)" for n
    using that nd by auto
  have hne: "headers \<noteq> []"
  proof
    assume "headers = []"
    then have "unresolved headers" by (simp add: unresolved_def)
    with assms(2) show False by (simp add: resolve_None_iff [symmetric])
  qed
  have pv: "preview w = PreviewJson (format_YYYY_MM_DD (now w)) (SEND_MODE w)
              (pending_rows w cols 0 rows)"
    using assms(1,2) hne by (simp add: preview_def readRows_def)
  have "\<forall>p \<in> set (pending_rows w cols 0 rows). p_row p \<noteq> i + 2"
    using pending_rows_rows [of _ w cols 0 rows] other by blast
  with pv have 1: "\<exists>ps. preview w = PreviewJson (format_YYYY_MM_DD (now w)) (SEND_MODE w) ps
            \<and> (\<forall>p \<in> set ps. p_row p \<noteq> i + 2)"
    by blast
  have 23: "(\<forall>ev \<in> set (snd (send_pending w)). effect_row ev \<noteq> i + 2)
       \<and> (\<forall>t m ss n. fst (send_pending w) = SentJson t m ss n
             \<longrightarrow> (\<forall>s \<in> set ss. s_row s \<noteq> i + 2))"
  proof (cases w rule: send_pending_cases)
    case early
    then show ?thesis by simp
  next
    case (loop vals headers' rows' cols' e tr sent)
    from loop(2) assms(1) have "vals = headers # rows" by simp
    with loop(3,4) assms(2) have same: "rows' = rows" "cols' = cols"
      by (simp_all add: readRows_def)
    from send_rows_rows [OF loop(5)] same obtain evs new where r:
      "tr = evs" "sent = new"
      "\<forall>ev \<in> set evs. \<exists>j < length rows. effect_row ev = 0 + j + 2 \<and> due w cols (rows ! j)"
      "\<forall>s \<in> set new. \<exists>j < length rows. s_row s = 0 + j + 2 \<and> due w cols (rows ! j)"
      by auto
    from r(3) other have a: "\<forall>ev \<in> set tr. effect_row ev \<noteq> i + 2"
      unfolding r(1) by blast
    from r(4) other have b: "\<forall>s \<in> set sent. s_row s \<noteq> i + 2"
      unfolding r(2) by blast
    have "ss = sent" if "fst (send_pending w) = SentJson t m ss n" for t m ss n
      using that loop(7) by (cases e) simp_all
    with a b show ?thesis
      unfolding loop(6) by blast
  qed
  have 4: "enviado_of cols row = si"
    if "trim (or_default (cell row (iEnviado cols)) []) \<in> si_variants" for row
    using si_variants_lower [OF that] by (simp add: enviado_of_def)
  from 1 23 4 show ?thesis by blast
qed

text \<open>Scenario C of the spec, the marker written in capitals between blanks.\<close>

theorem excluded_rows_witness:
  "sheet_values world_sent = Some (headers_A # [row_sent]) \<and> resolve headers_A = Some cols_A
   \<and> (0 :: nat) < length [row_sent] \<and> enviado_of cols_A ([row_sent] ! 0) = si
   \<and> trim (or_default (cell row_sent (iEnviado cols_A)) []) \<in> si_variants
   \<and> preview world_sent = PreviewJson ''2025-06-01'' ''today'' []
   \<and> \<not> (\<exists>ev \<in> set (snd (send_pending world_sent)). effect_row ev = 2)"
proof -
  have a: "sheet_values world_sent = Some (headers_A # [row_sent])"
    by (simp add: worlds_sheet)
  have b: "(0 :: nat) < length [row_sent]" by simp
  have c: "enviado_of cols_A ([row_sent] ! 0) = si"
    by (simp add: cells_A)
  have v: "trim (or_default (cell row_sent (iEnviado cols_A)) []) \<in> si_variants"
    unfolding cells_A(10) by (simp add: si_variants_def)
  from excluded_rows [OF a resolve_A b disjI2 [OF c]]
  have "\<forall>ev \<in> set (snd (send_pending world_sent)). effect_row ev \<noteq> 0 + 2"
    by blast
  moreover have "0 + 2 = (2 :: nat)" by simp
  ultimately have "\<forall>ev \<in> set (snd (send_pending world_sent)). effect_row ev \<noteq> 2"
    by (simp only:)
  then have "\<not> (\<exists>ev \<in> set (snd (send_pending world_sent)). effect_row ev = 2)"
    by blast
  with a resolve_A b c v runs_sent(1) show ?thesis by blast
qed

text \<open>
  The counterexample to C7 as stated: above a data row the header row is empty, so none of the
  four fields resolves, and /preview answers with an empty list instead of an error.
\<close>

theorem missing_headers_counterexample:
  "unresolved [] \<and> sheet_values world_no_header = Some [[], row_A]
   \<and> readRows [[], row_A] = ([], [row_A]) \<and> preview world_no_header = ToSendEmpty"
  by (simp add: unresolved_def worlds_sheet readRows_def preview_def)

text \<open>
  C7, as the code has it. When one of the four fields does not resolve, /preview answers 400
  MissingHeaders unless the header row is empty, where it answers an empty list;
  /send_pending answers 400 MissingHeaders once a destination is configured, and 400
  NoDestinations before looking at the sheet otherwise. No send and no write is made.
\<close>

theorem missing_headers:
  assumes "sheet_values w = Some values" and "readRows values = (headers, rows)"
    and "unresolved headers"
  shows "preview w = (if headers = [] then ToSendEmpty else Status400 MissingHeaders)
       \<and> send_pending w
           = (if DEST_NUMBERS w = [] then Status400 NoDestinations
              else Status400 MissingHeaders, [])"
  using assms by (simp add: preview_def send_pending_def resolve_None_iff [symmetric])

text \<open>Scenario D of the spec: no Cargo column.\<close>

theorem missing_headers_witness:
  "sheet_values world_no_cargo
     = Some [[''Nombre'', ''Fecha'', ''Enviado''], [''Ana'', ''01/06/25'', ''no'']]
   \<and> unresolved [''Nombre'', ''Fecha'', ''Enviado'']
   \<and> preview world_no_cargo = Status400 MissingHeaders
   \<and> send_pending world_no_cargo = (Status400 MissingHeaders, [])"
proof -
  have rr: "readRows [[''Nombre'', ''Fecha'', ''Enviado''], [''Ana'', ''01/06/25'', ''no'']]
      = ([''Nombre'', ''Fecha'', ''Enviado''], [[''Ana'', ''01/06/25'', ''no'']])"
    by (simp add: readRows_def)
  from missing_headers [OF worlds_sheet(6) rr unresolved_no_cargo]
  have "preview world_no_cargo = Status400 MissingHeaders
      \<and> send_pending world_no_cargo = (Status400 MissingHeaders, [])"
    by (simp add: worlds_DEST)
  with worlds_sheet(6) unresolved_no_cargo show ?thesis by blast
qed

text \<open>
  The counterexample to C8 as stated: scenario A with no session and no destination
  configured. The due set is not empty, /preview lists one record, and /send_pending answers
  400 NoDestinations, not the ChannelNotReady error.
\<close>

theorem not_ready_aborts_counterexample:
  "preview world_not_ready_no_dest =
     PreviewJson ''2025-06-01'' ''today''
       [\<lparr>p_row = 2, p_Nombre = ''Ana'', p_Cargo = ''Jefa'', p_Fecha = ''01/06/2025''\<rparr>]
   \<and> \<not> connReady world_not_ready_no_dest []
   \<and> send_pending world_not_ready_no_dest = (Status400 NoDestinations, [])"
proof -
  have "send_pending world_not_ready_no_dest = (Status400 NoDestinations, [])"
    by (simp add: send_pending_def worlds_DEST)
  with preview_not_ready_no_dest worlds_gateways(9) show ?thesis by blast
qed

text \<open>
  C8, as the code has it. With a due set that is not empty (what /preview lists) and a session
  that is not ready when the pass starts, /send_pending answers with the ChannelNotReady error
  once a destination is configured, and 400 NoDestinations before looking at the sheet
  otherwise. In both cases it makes no gateway call at all, so no row is marked.
\<close>

theorem not_ready_aborts:
  assumes "preview w = PreviewJson t m ps" and "ps \<noteq> []" and "\<not> connReady w []"
  shows "send_pending w
       = (if DEST_NUMBERS w = [] then Status400 NoDestinations
          else Status500 ChannelNotReady, [])"
proof (cases "DEST_NUMBERS w = []")
  case True
  then show ?thesis
    by (simp add: send_pending_def)
next
  case False
  from assms(1) obtain vals headers rows cols where
    v: "sheet_values w = Some vals" "readRows vals = (headers, rows)"
       "resolve headers = Some cols" "ps = pending_rows w cols 0 rows"
    by (rule preview_JsonD)
  from assms(2) v(4) have "hd ps \<in> set (pending_rows w cols 0 rows)"
    by simp
  from pending_rows_rows [OF this] have "\<exists>row \<in> set rows. due w cols row"
    by (auto intro: nth_mem)
  then have "send_rows w cols 0 rows [] [] = (Some ChannelNotReady, [], [])"
    using False assms(3) by (rule send_rows_not_ready)
  with False v show ?thesis
    by (simp add: send_pending_def)
qed

text \<open>Scenario A without a session.\<close>

theorem not_ready_aborts_witness:
  "preview world_not_ready =
     PreviewJson ''2025-06-01'' ''today''
       [\<lparr>p_row = 2, p_Nombre = ''Ana'', p_Cargo = ''Jefa'', p_Fecha = ''01/06/2025''\<rparr>]
   \<and> \<not> connReady world_not_ready []
   \<and> send_pending world_not_ready = (Status500 ChannelNotReady, [])"
proof -
  have ne: "[\<lparr>p_row = 2, p_Nombre = ''Ana'', p_Cargo = ''Jefa'', p_Fecha = ''01/06/2025''\<rparr>] \<noteq> []"
    by simp
  from not_ready_aborts [OF preview_not_ready ne worlds_gateways(8)]
  have "send_pending world_not_ready = (Status500 ChannelNotReady, [])"
    by (simp add: worlds_DEST)
  with preview_not_ready worlds_gateways(8) show ?thesis by blast
qed

text \<open>
  The counterexample to C9 as stated: a sheet without rows and no destination configured.
  /send_pending answers 400 NoDestinations and does not report missing headers.
\<close>

theorem empty_sheet_counterexample:
  "sheet_values world_empty_no_dest = Some []
   \<and> send_pending world_empty_no_dest = (Status400 NoDestinations, [])"
  by (simp add: send_pending_def worlds_DEST worlds_sheet)

text \<open>
  C9, as the code has it. On a sheet without rows /preview answers with an empty list,
  although a header row that is not empty and lacks a field makes it answer 400
  MissingHeaders; /send_pending has no such shortcut and answers 400 MissingHeaders once a
  destination is configured, and 400 NoDestinations before looking at the sheet otherwise.
\<close>

theorem empty_sheet:
  assumes "sheet_values w = Some []"
  shows "preview w = ToSendEmpty
       \<and> send_pending w
           = (if DEST_NUMBERS w = [] then Status400 NoDestinations
              else Status400 MissingHeaders, [])
       \<and> (\<forall>w' h rest. sheet_values w' = Some (h # rest) \<and> h \<noteq> [] \<and> unresolved h
             \<longrightarrow> preview w' = Status400 MissingHeaders)"
proof -
  have "unresolved []" by (simp add: unresolved_def)
  then have "resolve [] = None" by (simp add: resolve_None_iff)
  then show ?thesis
    using assms
    by (simp add: preview_def send_pending_def readRows_def resolve_None_iff [symmetric])
qed

text \<open>The empty sheet, and the sheet without a Cargo column for comparison.\<close>

theorem empty_sheet_witness:
  "sheet_values world_empty = Some [] \<and> preview world_empty = ToSendEmpty
   \<and> send_pending world_empty = (Status400 MissingHeaders, [])
   \<and> preview world_no_cargo = Status400 MissingHeaders"
proof -
  note t = empty_sheet [OF worlds_sheet(8)]
  have h: "[''Nombre'', ''Fecha'', ''Enviado''] \<noteq> []" by simp
  from t have 1: "preview world_empty = ToSendEmpty" by (rule conjunct1)
  from t [THEN conjunct2, THEN conjunct1]
  have 2: "send_pending world_empty = (Status400 MissingHeaders, [])"
    by (simp add: worlds_DEST)
  from t [THEN conjunct2, THEN conjunct2, rule_format, of world_no_cargo]
    worlds_sheet(6) h unresolved_no_cargo
  have 3: "preview world_no_cargo = Status400 MissingHeaders" by blast
  from worlds_sheet(8) 1 2 3 show ?thesis by blast
qed

end
